theory Spec2Isabelle
  imports Main "HOL-Library.Multiset"
begin

section \<open>Machine integers\<close>

text \<open>
  The counters of \<^verbatim>\<open>threadutil.h\<close> are C++ \<^verbatim>\<open>int\<close>s, taken here as 32 bits wide.
  They are modelled as \<^typ>\<open>int\<close>; incrementing \<open>INT_MAX\<close> is undefined behaviour in
  C++ and is an explicit outcome of the model.
\<close>

definition INT_MAX :: int where
  "INT_MAX = 2147483647"

definition INT_MIN :: int where
  "INT_MIN = - 2147483648"

text \<open>The conversion \<^verbatim>\<open>(int)vec.size()\<close>: the value modulo \<open>2 ^ 32\<close>, read as signed.\<close>

definition int_cast :: "nat \<Rightarrow> int" where
  "int_cast n = (let r = int n mod 2 ^ 32 in if r < 2 ^ 31 then r else r - 2 ^ 32)"

text \<open>The conversion of an \<^verbatim>\<open>int\<close> to \<^verbatim>\<open>size_t\<close> (64 bits) in a mixed comparison.\<close>

definition size_t_of :: "int \<Rightarrow> int" where
  "size_t_of i = i mod 2 ^ 64"

section \<open>The index dispatcher: \<^verbatim>\<open>ParallelComp\<close> and \<^verbatim>\<open>ParallelAppi\<close>\<close>

text \<open>
  Both functions run the same thread body over a shared cursor \<^verbatim>\<open>next_index\<close> guarded
  by the mutex \<^verbatim>\<open>index_m\<close>. The threads are modelled by their program points; an
  execution is a schedule, the list of the threads that take the successive steps. Every
  access to \<^verbatim>\<open>next_index\<close> is made holding the mutex, so the program has no data race on
  it and the interleaving of its steps is the meaning C++ gives it.

  Program points of a worker (the lambda \<^verbatim>\<open>th\<close>):
  \<^item> \<open>WLock\<close>: before \<^verbatim>\<open>index_m.lock()\<close>; the step is possible only when the mutex is free;
  \<^item> \<open>WTest\<close>: holding the mutex, before the test \<^verbatim>\<open>next_index == num\<close>;
  \<^item> \<open>WExit\<close>: the test succeeded, before \<^verbatim>\<open>index_m.unlock(); return\<close>;
  \<^item> \<open>WClaim\<close>: the test failed, before \<^verbatim>\<open>int my_index = next_index++\<close>;
  \<^item> \<open>WUnlock i\<close>: \<^verbatim>\<open>my_index = i\<close>, before \<^verbatim>\<open>index_m.unlock()\<close>;
  \<^item> \<open>WWork i\<close>: the mutex released, before the call of \<^verbatim>\<open>f\<close> on \<open>i\<close>;
  \<^item> \<open>WDone\<close>: the thread function has returned.
\<close>

datatype wpc = WLock | WTest | WExit | WClaim | WUnlock int | WWork int | WDone

text \<open>
  Program points of the calling thread: \<open>MSpawn i\<close> is the head of the loop that
  starts the threads, with loop variable \<open>i\<close>; \<open>MJoin j\<close> is the head of the loop
  that joins them, about to join thread \<open>j\<close>; \<open>MReturned\<close>: the call has returned.
\<close>

datatype mpc = MSpawn nat | MJoin nat | MReturned

datatype thread = Main | Worker nat

text \<open>
  A step that cannot be taken is \<open>Blocked\<close> (a thread waiting for the mutex or for
  a join, or a thread that has finished); a step with undefined behaviour is \<open>Undefined\<close>.
\<close>

datatype stop = Blocked | Undefined

text \<open>
  What differs between \<^verbatim>\<open>ParallelComp\<close> and \<^verbatim>\<open>ParallelAppi\<close>: the exit test, the
  number of threads (after the \<^verbatim>\<open>std::min\<close> and \<^verbatim>\<open>std::max\<close>) and the call made
  with a claimed index. The call acts on the caller's data \<open>'u\<close>; \<open>None\<close> is
  undefined behaviour inside the call. A call is one step of the model: the source leaves
  the synchronisation of shared data to the caller of the dispatcher ("The caller must of
  course synchronize any accesses to shared data structures"), and \<^verbatim>\<open>ParallelMap\<close> writes
  disjoint slots.
\<close>

record 'u dispatch =
  at_end :: "int \<Rightarrow> bool"
  nthreads :: int
  work :: "int \<Rightarrow> 'u \<Rightarrow> 'u option"

text \<open>
  The state: the cursor, the owner of the mutex, the program points of the threads started
  so far (the vector \<^verbatim>\<open>threads\<close>), the program point of the caller, the indices \<^verbatim>\<open>f\<close>
  has been called on (in the order of the calls) and the caller's data.
\<close>

record 'u pstate =
  next_index :: int
  index_m :: "nat option"
  threads :: "wpc list"
  caller :: mpc
  calls :: "int list"
  shared :: 'u

definition start :: "'u \<Rightarrow> 'u pstate" where
  "start u = \<lparr>next_index = 0, index_m = None, threads = [], caller = MSpawn 0,
     calls = [], shared = u\<rparr>"

fun worker_step :: "'u dispatch \<Rightarrow> nat \<Rightarrow> wpc \<Rightarrow> 'u pstate \<Rightarrow> stop + 'u pstate" where
  "worker_step d w WLock s =
     (case index_m s of
        None \<Rightarrow> Inr (s\<lparr>index_m := Some w, threads := (threads s)[w := WTest]\<rparr>)
      | Some _ \<Rightarrow> Inl Blocked)"
| "worker_step d w WTest s =
     Inr (s\<lparr>threads := (threads s)[w := (if at_end d (next_index s) then WExit else WClaim)]\<rparr>)"
| "worker_step d w WExit s =
     Inr (s\<lparr>index_m := None, threads := (threads s)[w := WDone]\<rparr>)"
| "worker_step d w WClaim s =
     (if next_index s = INT_MAX then Inl Undefined
      else Inr (s\<lparr>next_index := next_index s + 1,
                  threads := (threads s)[w := WUnlock (next_index s)]\<rparr>))"
| "worker_step d w (WUnlock i) s =
     Inr (s\<lparr>index_m := None, threads := (threads s)[w := WWork i]\<rparr>)"
| "worker_step d w (WWork i) s =
     (case work d i (shared s) of
        None \<Rightarrow> Inl Undefined
      | Some u \<Rightarrow> Inr (s\<lparr>threads := (threads s)[w := WLock], calls := calls s @ [i],
                         shared := u\<rparr>))"
| "worker_step d w WDone s = Inl Blocked"

fun main_step :: "'u dispatch \<Rightarrow> mpc \<Rightarrow> 'u pstate \<Rightarrow> stop + 'u pstate" where
  "main_step d (MSpawn i) s =
     (if int i < nthreads d
      then Inr (s\<lparr>threads := threads s @ [WLock], caller := MSpawn (Suc i)\<rparr>)
      else Inr (s\<lparr>caller := MJoin 0\<rparr>))"
| "main_step d (MJoin j) s =
     (if j < length (threads s)
      then (if threads s ! j = WDone then Inr (s\<lparr>caller := MJoin (Suc j)\<rparr>) else Inl Blocked)
      else Inr (s\<lparr>caller := MReturned\<rparr>))"
| "main_step d MReturned s = Inl Blocked"

fun step :: "'u dispatch \<Rightarrow> thread \<Rightarrow> 'u pstate \<Rightarrow> stop + 'u pstate" where
  "step d Main s = main_step d (caller s) s"
| "step d (Worker w) s =
     (if w < length (threads s) then worker_step d w (threads s ! w) s else Inl Blocked)"

fun exec :: "'u dispatch \<Rightarrow> thread list \<Rightarrow> 'u pstate \<Rightarrow> stop + 'u pstate" where
  "exec d [] s = Inr s"
| "exec d (t # ts) s = (case step d t s of Inl e \<Rightarrow> Inl e | Inr s' \<Rightarrow> exec d ts s')"

text \<open>\<^verbatim>\<open>ParallelComp(num, f, max_concurrency)\<close>, lines 105 to 142.\<close>

definition ParallelComp :: "int \<Rightarrow> (int \<Rightarrow> 'u \<Rightarrow> 'u) \<Rightarrow> int \<Rightarrow> 'u dispatch" where
  "ParallelComp num f max_concurrency =
     \<lparr>at_end = (\<lambda>n. n = num),
      nthreads = max (min num max_concurrency) 1,
      work = (\<lambda>i u. Some (f i u))\<rparr>"

text \<open>
  \<^verbatim>\<open>ParallelAppi(vec, f, max_concurrency)\<close>, lines 51 to 90. The test
  \<^verbatim>\<open>next_index == vec.size()\<close> compares in \<^verbatim>\<open>size_t\<close>; \<^verbatim>\<open>vec[my_index]\<close> outside the
  vector is undefined behaviour.
\<close>

definition ParallelAppi :: "'a list \<Rightarrow> (int \<Rightarrow> 'a \<Rightarrow> 'u \<Rightarrow> 'u option) \<Rightarrow> int \<Rightarrow> 'u dispatch" where
  "ParallelAppi vec f max_concurrency =
     \<lparr>at_end = (\<lambda>n. size_t_of n = int (length vec)),
      nthreads = max (min (int_cast (length vec)) max_concurrency) 1,
      work = (\<lambda>i u. if 0 \<le> i \<and> i < int (length vec) then f i (vec ! nat i) u else None)\<rparr>"

text \<open>
  A test function for the dispatcher: it records the index it is called on in the
  caller's list.
\<close>

definition record_index :: "int \<Rightarrow> int list \<Rightarrow> int list" where
  "record_index i xs = xs @ [i]"

subsection \<open>The spec's thread count\<close>

text \<open>
  The spec's words, for comparison with the code's \<^verbatim>\<open>std::max(std::min(num, max_concurrency), 1)\<close>:
  the number of workers is \<open>M\<close> clamped to \<open>[1, N]\<close>, and to \<open>[1, 1]\<close> when \<open>N = 0\<close>.
\<close>

definition spec_clamp :: "int \<Rightarrow> int \<Rightarrow> int \<Rightarrow> int" where
  "spec_clamp v lo hi = (if v < lo then lo else if hi < v then hi else v)"

definition spec_workers :: "int \<Rightarrow> int \<Rightarrow> int" where
  "spec_workers N M = (if N = 0 then spec_clamp M 1 1 else spec_clamp M 1 N)"

subsection \<open>Invariants of the dispatcher\<close>

text \<open>The program points at which a worker holds \<^verbatim>\<open>index_m\<close>.\<close>

fun holds_mutex :: "wpc \<Rightarrow> bool" where
  "holds_mutex WTest = True"
| "holds_mutex WExit = True"
| "holds_mutex WClaim = True"
| "holds_mutex (WUnlock i) = True"
| "holds_mutex WLock = False"
| "holds_mutex (WWork i) = False"
| "holds_mutex WDone = False"

text \<open>The index a worker has claimed and not yet passed to \<^verbatim>\<open>f\<close>.\<close>

fun claimed :: "wpc \<Rightarrow> int multiset" where
  "claimed (WUnlock i) = {#i#}"
| "claimed (WWork i) = {#i#}"
| "claimed WLock = {#}"
| "claimed WTest = {#}"
| "claimed WExit = {#}"
| "claimed WClaim = {#}"
| "claimed WDone = {#}"

fun in_flight :: "wpc list \<Rightarrow> int multiset" where
  "in_flight [] = {#}"
| "in_flight (p # ps) = claimed p + in_flight ps"

text \<open>The effect of a sequence of calls of \<^verbatim>\<open>f\<close> on the caller's data.\<close>

fun run_calls :: "'u dispatch \<Rightarrow> int list \<Rightarrow> 'u \<Rightarrow> 'u option" where
  "run_calls d [] u = Some u"
| "run_calls d (i # is) u = (case work d i u of None \<Rightarrow> None | Some u' \<Rightarrow> run_calls d is u')"

text \<open>
  Mutual exclusion: the owner of the mutex is the one worker at a program point between
  \<^verbatim>\<open>lock\<close> and \<^verbatim>\<open>unlock\<close>.
\<close>

definition mutex_ok :: "'u pstate \<Rightarrow> bool" where
  "mutex_ok s \<longleftrightarrow>
     (\<forall>w < length (threads s). holds_mutex (threads s ! w) \<longrightarrow> index_m s = Some w) \<and>
     (\<forall>w. index_m s = Some w \<longrightarrow> w < length (threads s) \<and> holds_mutex (threads s ! w))"

text \<open>
  The cursor stays in the range of \<^verbatim>\<open>int\<close>; a worker about to claim has seen the
  exit test fail, and a worker that has left the loop has seen it succeed.
\<close>

definition cursor_ok :: "'u dispatch \<Rightarrow> 'u pstate \<Rightarrow> bool" where
  "cursor_ok d s \<longleftrightarrow>
     0 \<le> next_index s \<and> next_index s \<le> INT_MAX \<and>
     (\<forall>w < length (threads s). threads s ! w = WClaim \<longrightarrow> \<not> at_end d (next_index s)) \<and>
     (\<forall>w < length (threads s). threads s ! w = WExit \<or> threads s ! w = WDone
         \<longrightarrow> at_end d (next_index s))"

text \<open>
  The indices passed to \<^verbatim>\<open>f\<close> together with the indices claimed and not yet passed
  are exactly the indices below the cursor, each once.
\<close>

definition claims_ok :: "'u pstate \<Rightarrow> bool" where
  "claims_ok s \<longleftrightarrow> mset (calls s) + in_flight (threads s) = mset_set {0..<next_index s}"

text \<open>The caller's data is the initial data after the calls made so far, in their order.\<close>

definition data_ok :: "'u dispatch \<Rightarrow> 'u \<Rightarrow> 'u pstate \<Rightarrow> bool" where
  "data_ok d u0 s \<longleftrightarrow> run_calls d (calls s) u0 = Some (shared s)"

text \<open>
  The calling thread: while it starts threads the vector holds \<open>i\<close> of them; once it
  joins, the vector is complete and the threads already joined have finished.
\<close>

definition caller_ok :: "'u dispatch \<Rightarrow> 'u pstate \<Rightarrow> bool" where
  "caller_ok d s \<longleftrightarrow>
     (case caller s of
        MSpawn i \<Rightarrow> length (threads s) = i \<and> int i \<le> nthreads d
      | MJoin j \<Rightarrow> int (length (threads s)) = nthreads d \<and> j \<le> length (threads s) \<and>
          (\<forall>k < j. threads s ! k = WDone)
      | MReturned \<Rightarrow> int (length (threads s)) = nthreads d \<and>
          (\<forall>k < length (threads s). threads s ! k = WDone))"

definition dispatch_inv :: "'u dispatch \<Rightarrow> 'u \<Rightarrow> 'u pstate \<Rightarrow> bool" where
  "dispatch_inv d u0 s \<longleftrightarrow>
     mutex_ok s \<and> cursor_ok d s \<and> claims_ok s \<and> data_ok d u0 s \<and> caller_ok d s"

text \<open>The value at which the exit test succeeds, for cursors in the range of \<^verbatim>\<open>int\<close>.\<close>

definition limit_is :: "'u dispatch \<Rightarrow> int \<Rightarrow> bool" where
  "limit_is d lim \<longleftrightarrow> (\<forall>n. 0 \<le> n \<and> n \<le> INT_MAX \<longrightarrow> at_end d n = (n = lim))"

text \<open>
  A termination measure: the steps a worker still takes in its current iteration, five
  steps for each index not yet claimed, and the steps left to the calling thread.
\<close>

fun rank :: "wpc \<Rightarrow> nat" where
  "rank WLock = 3"
| "rank WTest = 2"
| "rank WExit = 1"
| "rank WClaim = 1"
| "rank (WUnlock i) = 5"
| "rank (WWork i) = 4"
| "rank WDone = 0"

fun caller_rank :: "nat \<Rightarrow> mpc \<Rightarrow> nat" where
  "caller_rank k (MSpawn i) = 4 * (k - i) + k + 2"
| "caller_rank k (MJoin j) = (k - j) + 1"
| "caller_rank k MReturned = 0"

definition variant :: "int \<Rightarrow> 'u dispatch \<Rightarrow> 'u pstate \<Rightarrow> nat" where
  "variant lim d s = 5 * nat (lim - next_index s) + sum_list (map rank (threads s))
     + caller_rank (nat (nthreads d)) (caller s)"

section \<open>\<^verbatim>\<open>ParallelMap\<close> and \<^verbatim>\<open>UnParallelMap\<close>\<close>

text \<open>
  The lambda \<^verbatim>\<open>run_write\<close> of \<^verbatim>\<open>ParallelMap\<close>: \<^verbatim>\<open>data[idx] = f(arg)\<close> through the raw
  pointer into the result vector; a write outside the vector is undefined behaviour.
\<close>

definition run_write :: "('a \<Rightarrow> 'r) \<Rightarrow> int \<Rightarrow> 'a \<Rightarrow> 'r list \<Rightarrow> 'r list option" where
  "run_write f idx arg data =
     (if 0 \<le> idx \<and> idx < int (length data) then Some (data[nat idx := f arg]) else None)"

text \<open>
  \<^verbatim>\<open>ParallelMap(vec, f, max_concurrency)\<close>, lines 153 to 173: the result vector is resized
  to \<^verbatim>\<open>vec.size()\<close> default-constructed elements (\<open>dflt\<close>), \<^verbatim>\<open>ParallelAppi\<close> runs
  \<^verbatim>\<open>run_write\<close> over it, and the vector is returned. The interleaving is the extra
  argument \<open>sched\<close>; a schedule under which the call has not returned gives \<open>Blocked\<close>.
\<close>

definition ParallelMap :: "'r \<Rightarrow> 'a list \<Rightarrow> ('a \<Rightarrow> 'r) \<Rightarrow> int \<Rightarrow> thread list \<Rightarrow> stop + 'r list" where
  "ParallelMap dflt vec f max_concurrency sched =
     (case exec (ParallelAppi vec (run_write f) max_concurrency) sched
             (start (replicate (length vec) dflt)) of
        Inl e \<Rightarrow> Inl e
      | Inr s \<Rightarrow> (if caller s = MReturned then Inr (shared s) else Inl Blocked))"

text \<open>
  \<^verbatim>\<open>UnParallelMap\<close>, lines 176 to 189. The loop variable is an \<^verbatim>\<open>int\<close> that is never
  negative, so its conversion to \<^verbatim>\<open>size_t\<close> in \<^verbatim>\<open>i < vec.size()\<close> is the identity; the
  variable is a \<^typ>\<open>nat\<close> here and \<^verbatim>\<open>i++\<close> at \<open>INT_MAX\<close> is undefined behaviour, as is
  \<^verbatim>\<open>result[i]\<close> outside the result vector.
\<close>

function UnParallelMap_loop :: "'a list \<Rightarrow> ('a \<Rightarrow> 'r) \<Rightarrow> nat \<Rightarrow> 'r list \<Rightarrow> stop + 'r list" where
  "UnParallelMap_loop vec f i result =
     (if i < length vec
      then (if i < length result
            then (if int i = INT_MAX then Inl Undefined
                  else UnParallelMap_loop vec f (Suc i) (result[i := f (vec ! i)]))
            else Inl Undefined)
      else Inr result)"
  by pat_completeness auto
termination
  by (relation "measure (\<lambda>(vec, f, i, result). length vec - i)") auto

definition UnParallelMap :: "'r \<Rightarrow> 'a list \<Rightarrow> ('a \<Rightarrow> 'r) \<Rightarrow> int \<Rightarrow> stop + 'r list" where
  "UnParallelMap dflt vec f max_concurrency_ignored =
     UnParallelMap_loop vec f 0 (replicate (length vec) dflt)"

section \<open>The throttled runner: \<^verbatim>\<open>Asynchronously\<close>\<close>

text \<open>
  The runner is modelled like the dispatcher: every call of \<^verbatim>\<open>Run\<close>, every detached
  thread and the destructor is a thread given by its program point, and an execution is a
  list of actions. A call of \<^verbatim>\<open>Run\<close> is identified by its number \<open>c\<close> (the \<open>c\<close>-th call
  made on the runner) and so is its task \<^verbatim>\<open>f\<close>; a task is opaque and does not use the
  runner itself. Every access to \<^verbatim>\<open>threads_active\<close> is made holding \<^verbatim>\<open>m\<close>, and
  \<^verbatim>\<open>max_threads\<close> is constant.

  Program points of a call of \<^verbatim>\<open>Run\<close>, lines 219 to 236:
  \<^item> \<open>RLock\<close>: before \<^verbatim>\<open>m.lock()\<close>;
  \<^item> \<open>RTest\<close>: holding the mutex, before \<^verbatim>\<open>threads_active < max_threads\<close>;
  \<^item> \<open>RInc\<close>: before \<^verbatim>\<open>threads_active++\<close>; \<open>RUnlockAsync\<close>: before \<^verbatim>\<open>m.unlock()\<close>;
    \<open>RSpawn\<close>: before the creation and detaching of the thread;
  \<^item> \<open>RUnlockSync\<close>: in the else branch, before \<^verbatim>\<open>m.unlock()\<close>; \<open>RSync\<close>: before the
    call \<^verbatim>\<open>f()\<close> on the calling thread;
  \<^item> \<open>RDone\<close>: \<^verbatim>\<open>Run\<close> has returned.
\<close>

datatype rpc = RLock | RTest | RInc | RUnlockAsync | RSpawn | RUnlockSync | RSync | RDone

text \<open>
  Program points of a detached thread, lines 224 to 228: \<open>TTask\<close> before \<^verbatim>\<open>f()\<close>,
  \<open>TLock\<close> before the \<^verbatim>\<open>MutexLock\<close>, \<open>TDec\<close> before \<^verbatim>\<open>threads_active--\<close>, \<open>TUnlock\<close>
  before the unlock at the end of the scope, \<open>TDone\<close> finished.
\<close>

datatype tpc = TTask | TLock | TDec | TUnlock | TDone

text \<open>
  Program points of the destructor, lines 239 to 246: \<open>DAlive\<close> not yet called,
  \<open>DLock\<close> before the \<^verbatim>\<open>MutexLock\<close> of an iteration, \<open>DTest\<close> before
  \<^verbatim>\<open>threads_active == 0\<close>, \<open>DUnlockReturn\<close> before the unlock of the \<^verbatim>\<open>return\<close>,
  \<open>DUnlockLoop\<close> before the unlock at the end of the loop body, \<open>DReturned\<close>.
\<close>

datatype dpc = DAlive | DLock | DTest | DUnlockReturn | DUnlockLoop | DReturned

datatype agent = Run nat | Detached nat | Destructor

text \<open>
  An action is a step of a thread, or one of the two things the client does: \<open>Call\<close>
  starts a new call of \<^verbatim>\<open>Run\<close>, \<open>Destroy\<close> starts the destructor.
\<close>

datatype action = Call | Destroy | Step agent

text \<open>
  The state: the members \<^verbatim>\<open>threads_active\<close>, \<^verbatim>\<open>max_threads\<close> and \<^verbatim>\<open>m\<close> (the owner of
  the mutex), the program points of the calls of \<^verbatim>\<open>Run\<close>, of the detached threads (each
  with the number of the call that started it) and of the destructor, and the record of the
  tasks executed: the call whose task ran and the thread it ran on.
\<close>

record astate =
  threads_active :: int
  max_threads :: int
  m :: "agent option"
  runs :: "rpc list"
  detached :: "(nat \<times> tpc) list"
  dtor :: dpc
  executed :: "(nat \<times> agent) list"

definition Asynchronously :: "int \<Rightarrow> astate" where
  "Asynchronously max_threads' =
     \<lparr>threads_active = 0, max_threads = max_threads', m = None, runs = [], detached = [],
      dtor = DAlive, executed = []\<rparr>"

fun Run_step :: "nat \<Rightarrow> rpc \<Rightarrow> astate \<Rightarrow> stop + astate" where
  "Run_step c RLock s =
     (case m s of
        None \<Rightarrow> Inr (s\<lparr>m := Some (Run c), runs := (runs s)[c := RTest]\<rparr>)
      | Some _ \<Rightarrow> Inl Blocked)"
| "Run_step c RTest s =
     Inr (s\<lparr>runs := (runs s)[c := (if threads_active s < max_threads s then RInc
                                       else RUnlockSync)]\<rparr>)"
| "Run_step c RInc s =
     (if threads_active s = INT_MAX then Inl Undefined
      else Inr (s\<lparr>threads_active := threads_active s + 1, runs := (runs s)[c := RUnlockAsync]\<rparr>))"
| "Run_step c RUnlockAsync s = Inr (s\<lparr>m := None, runs := (runs s)[c := RSpawn]\<rparr>)"
| "Run_step c RSpawn s =
     Inr (s\<lparr>runs := (runs s)[c := RDone], detached := detached s @ [(c, TTask)]\<rparr>)"
| "Run_step c RUnlockSync s = Inr (s\<lparr>m := None, runs := (runs s)[c := RSync]\<rparr>)"
| "Run_step c RSync s =
     Inr (s\<lparr>runs := (runs s)[c := RDone], executed := executed s @ [(c, Run c)]\<rparr>)"
| "Run_step c RDone s = Inl Blocked"

fun Detached_step :: "nat \<Rightarrow> nat \<Rightarrow> tpc \<Rightarrow> astate \<Rightarrow> stop + astate" where
  "Detached_step k c TTask s =
     Inr (s\<lparr>detached := (detached s)[k := (c, TLock)], executed := executed s @ [(c, Detached k)]\<rparr>)"
| "Detached_step k c TLock s =
     (case m s of
        None \<Rightarrow> Inr (s\<lparr>m := Some (Detached k), detached := (detached s)[k := (c, TDec)]\<rparr>)
      | Some _ \<Rightarrow> Inl Blocked)"
| "Detached_step k c TDec s =
     (if threads_active s = INT_MIN then Inl Undefined
      else Inr (s\<lparr>threads_active := threads_active s - 1,
                  detached := (detached s)[k := (c, TUnlock)]\<rparr>))"
| "Detached_step k c TUnlock s = Inr (s\<lparr>m := None, detached := (detached s)[k := (c, TDone)]\<rparr>)"
| "Detached_step k c TDone s = Inl Blocked"

fun Destructor_step :: "dpc \<Rightarrow> astate \<Rightarrow> stop + astate" where
  "Destructor_step DAlive s = Inl Blocked"
| "Destructor_step DLock s =
     (case m s of
        None \<Rightarrow> Inr (s\<lparr>m := Some Destructor, dtor := DTest\<rparr>)
      | Some _ \<Rightarrow> Inl Blocked)"
| "Destructor_step DTest s =
     Inr (s\<lparr>dtor := (if threads_active s = 0 then DUnlockReturn else DUnlockLoop)\<rparr>)"
| "Destructor_step DUnlockReturn s = Inr (s\<lparr>m := None, dtor := DReturned\<rparr>)"
| "Destructor_step DUnlockLoop s = Inr (s\<lparr>m := None, dtor := DLock\<rparr>)"
| "Destructor_step DReturned s = Inl Blocked"

text \<open>
  The client's obligations are those of any C++ object: \<^verbatim>\<open>Run\<close> is called only on a
  runner whose destructor has not been called, and the destructor is called once, when no
  call of \<^verbatim>\<open>Run\<close> is in progress. Anything else is undefined behaviour.
\<close>

fun astep :: "action \<Rightarrow> astate \<Rightarrow> stop + astate" where
  "astep Call s =
     (if dtor s = DAlive then Inr (s\<lparr>runs := runs s @ [RLock]\<rparr>) else Inl Undefined)"
| "astep Destroy s =
     (if dtor s = DAlive \<and> (\<forall>p \<in> set (runs s). p = RDone) then Inr (s\<lparr>dtor := DLock\<rparr>)
      else Inl Undefined)"
| "astep (Step (Run c)) s =
     (if c < length (runs s) then Run_step c (runs s ! c) s else Inl Blocked)"
| "astep (Step (Detached k)) s =
     (if k < length (detached s)
      then Detached_step k (fst (detached s ! k)) (snd (detached s ! k)) s else Inl Blocked)"
| "astep (Step Destructor) s = Destructor_step (dtor s) s"

fun aexec :: "action list \<Rightarrow> astate \<Rightarrow> stop + astate" where
  "aexec [] s = Inr s"
| "aexec (a # as) s = (case astep a s of Inl e \<Rightarrow> Inl e | Inr s' \<Rightarrow> aexec as s')"

subsection \<open>Invariants of the runner\<close>

text \<open>The program points inside a critical section of \<^verbatim>\<open>m\<close>.\<close>

fun holding :: "astate \<Rightarrow> agent \<Rightarrow> bool" where
  "holding s (Run c) =
     (c < length (runs s) \<and> runs s ! c \<in> {RTest, RInc, RUnlockAsync, RUnlockSync})"
| "holding s (Detached k) =
     (k < length (detached s) \<and> snd (detached s ! k) \<in> {TDec, TUnlock})"
| "holding s Destructor = (dtor s \<in> {DTest, DUnlockReturn, DUnlockLoop})"

definition amutex_ok :: "astate \<Rightarrow> bool" where
  "amutex_ok s \<longleftrightarrow> (\<forall>a. holding s a = (m s = Some a))"

text \<open>
  \<^verbatim>\<open>threads_active\<close> counts the calls that have incremented it and not yet started
  their thread, and the detached threads that have not yet decremented it.
\<close>

fun pending_run :: "rpc \<Rightarrow> bool" where
  "pending_run p = (p = RUnlockAsync \<or> p = RSpawn)"

fun pending_thread :: "nat \<times> tpc \<Rightarrow> bool" where
  "pending_thread (c, pc) = (pc = TTask \<or> pc = TLock \<or> pc = TDec)"

definition count_ok :: "astate \<Rightarrow> bool" where
  "count_ok s \<longleftrightarrow>
     threads_active s = int (length (filter pending_run (runs s)))
       + int (length (filter pending_thread (detached s)))"

definition capacity_ok :: "astate \<Rightarrow> bool" where
  "capacity_ok s \<longleftrightarrow>
     threads_active s \<le> max 0 (max_threads s) \<and>
     (\<forall>c < length (runs s). runs s ! c = RInc \<longrightarrow> threads_active s < max_threads s)"

text \<open>
  The destructor runs when every call of \<^verbatim>\<open>Run\<close> has returned; once its test has
  succeeded the counter is 0 and every detached thread has finished.
\<close>

definition dtor_ok :: "astate \<Rightarrow> bool" where
  "dtor_ok s \<longleftrightarrow>
     (dtor s \<noteq> DAlive \<longrightarrow> (\<forall>p \<in> set (runs s). p = RDone)) \<and>
     (dtor s = DUnlockReturn \<or> dtor s = DReturned \<longrightarrow>
        threads_active s = 0 \<and> (\<forall>e \<in> set (detached s). snd e = TDone)) \<and>
     (dtor s = DUnlockLoop \<longrightarrow> threads_active s \<noteq> 0)"

text \<open>
  The record of executed tasks: a detached thread belongs to a call that has returned; a
  call has run its task itself only if it has returned and started no thread; a call that
  has returned has run its task itself or started a thread; a detached thread past its
  first step has run its task.
\<close>

definition tasks_ok :: "astate \<Rightarrow> bool" where
  "tasks_ok s \<longleftrightarrow>
     (\<forall>e \<in> set (detached s). fst e < length (runs s) \<and> runs s ! fst e = RDone) \<and>
     (\<forall>e \<in> set (executed s). fst e < length (runs s)) \<and>
     (\<forall>c < length (runs s). (c, Run c) \<in> set (executed s) \<longrightarrow>
        runs s ! c = RDone \<and> c \<notin> fst ` set (detached s)) \<and>
     (\<forall>c < length (runs s). runs s ! c = RDone \<longrightarrow>
        (c, Run c) \<in> set (executed s) \<or> c \<in> fst ` set (detached s)) \<and>
     (\<forall>k < length (detached s). snd (detached s ! k) \<noteq> TTask \<longrightarrow>
        (fst (detached s ! k), Detached k) \<in> set (executed s))"

definition runner_inv :: "astate \<Rightarrow> bool" where
  "runner_inv s \<longleftrightarrow> amutex_ok s \<and> count_ok s \<and> capacity_ok s \<and> dtor_ok s \<and> tasks_ok s"

text \<open>With a capacity of 0 or less: no counter, no thread, every task on its caller.\<close>

definition sync_only :: "astate \<Rightarrow> bool" where
  "sync_only s \<longleftrightarrow>
     threads_active s = 0 \<and> detached s = [] \<and>
     (\<forall>p \<in> set (runs s). p = RLock \<or> p = RTest \<or> p = RUnlockSync \<or> p = RSync \<or> p = RDone) \<and>
     (\<forall>e \<in> set (executed s). snd e = Run (fst e))"

subsection \<open>The variant of the runner\<close>

text \<open>
  The number of steps a call of \<^verbatim>\<open>Run\<close> and a detached thread still have to make, and
  the number of steps the destructor needs to leave its critical section. A call that is
  about to start its thread counts the steps of that thread as well, so that every step of a
  call or of a detached thread makes the sum over all of them smaller.
\<close>

fun rrank :: "rpc \<Rightarrow> nat" where
  "rrank RLock = 9"
| "rrank RTest = 8"
| "rrank RInc = 7"
| "rrank RUnlockAsync = 6"
| "rrank RSpawn = 5"
| "rrank RUnlockSync = 2"
| "rrank RSync = 1"
| "rrank RDone = 0"

fun trank :: "nat \<times> tpc \<Rightarrow> nat" where
  "trank (c, TTask) = 4"
| "trank (c, TLock) = 3"
| "trank (c, TDec) = 2"
| "trank (c, TUnlock) = 1"
| "trank (c, TDone) = 0"

fun drank :: "dpc \<Rightarrow> nat" where
  "drank DTest = 2"
| "drank DUnlockReturn = 1"
| "drank DUnlockLoop = 1"
| "drank DAlive = 0"
| "drank DLock = 0"
| "drank DReturned = 0"

definition avariant :: "astate \<Rightarrow> nat" where
  "avariant s = sum_list (map rrank (runs s)) + sum_list (map trank (detached s))"

section \<open>Properties of the dispatcher\<close>

lemma in_flight_update:
  "w < length ps \<Longrightarrow> in_flight (ps[w := p]) + claimed (ps ! w) = in_flight ps + claimed p"
  by (induction ps arbitrary: w) (auto simp: nth_Cons split: nat.splits)

lemma in_flight_append: "in_flight (ps @ qs) = in_flight ps + in_flight qs"
  by (induction ps) auto

lemma run_calls_append:
  "run_calls d (xs @ ys) u = (case run_calls d xs u of None \<Rightarrow> None | Some u' \<Rightarrow> run_calls d ys u')"
  by (induction xs arbitrary: u) (auto split: option.splits)

lemma mutex_ok_update:
  assumes ok: "mutex_ok s" and w: "w < length (threads s)"
    and th: "threads s' = (threads s)[w := p]"
    and mx: "index_m s' = (if holds_mutex p then Some w
               else if holds_mutex (threads s ! w) then None else index_m s)"
    and acq: "holds_mutex p \<Longrightarrow> holds_mutex (threads s ! w) \<or> index_m s = None"
  shows "mutex_ok s'"
proof -
  have M1: "holds_mutex (threads s ! v) \<Longrightarrow> index_m s = Some v" if "v < length (threads s)" for v
    using ok that unfolding mutex_ok_def by blast
  have M2: "v < length (threads s) \<and> holds_mutex (threads s ! v)" if "index_m s = Some v" for v
    using ok that unfolding mutex_ok_def by blast
  have others: "\<not> holds_mutex (threads s ! v)"
    if "v < length (threads s)" "v \<noteq> w" "holds_mutex p \<or> holds_mutex (threads s ! w)" for v
  proof
    assume h: "holds_mutex (threads s ! v)"
    then have "index_m s = Some v" using M1 that(1) by blast
    moreover have "holds_mutex (threads s ! w)" using acq that(3) calculation by auto
    then have "index_m s = Some w" using M1 w by blast
    ultimately show False using that(2) by simp
  qed
  have P1: "index_m s' = Some v"
    if v: "v < length (threads s')" and h: "holds_mutex (threads s' ! v)" for v
    proof (cases "v = w")
      case True
      with v h w show ?thesis by (simp add: th mx)
    next
      case False
      with v h have hv: "v < length (threads s)" "holds_mutex (threads s ! v)" by (simp_all add: th)
      then have "\<not> holds_mutex p" "\<not> holds_mutex (threads s ! w)" using others False by blast+
      then show ?thesis using M1 hv by (simp add: mx)
    qed
  have P2: "v < length (threads s') \<and> holds_mutex (threads s' ! v)"
    if o: "index_m s' = Some v" for v
    proof (cases "holds_mutex p")
      case True
      with o w show ?thesis by (simp add: th mx)
    next
      case False
      with o have nw: "\<not> holds_mutex (threads s ! w)" and ov: "index_m s = Some v"
        by (simp_all add: mx split: if_splits)
      then have "v < length (threads s)" "holds_mutex (threads s ! v)" using M2 by blast+
      moreover from this nw have "v \<noteq> w" by auto
      ultimately show ?thesis by (simp add: th)
    qed
  show ?thesis
    unfolding mutex_ok_def using P1 P2 by blast
qed

lemma mutex_held:
  "mutex_ok s \<Longrightarrow> w < length (threads s) \<Longrightarrow> holds_mutex (threads s ! w) \<Longrightarrow> index_m s = Some w"
  unfolding mutex_ok_def by blast

lemma mutex_owner:
  "mutex_ok s \<Longrightarrow> index_m s = Some w \<Longrightarrow> w < length (threads s) \<and> holds_mutex (threads s ! w)"
  unfolding mutex_ok_def by blast

lemma worker_step_mutex:
  assumes "mutex_ok s" and "w < length (threads s)"
    and "worker_step d w (threads s ! w) s = Inr s'"
  shows "mutex_ok s'"
proof -
  note own = mutex_held[OF assms(1,2)]
  show ?thesis
proof (cases "threads s ! w")
  case WLock
  with assms own show ?thesis
    by - (rule mutex_ok_update[where p = WTest and w = w and s = s], auto split: option.splits)
next
  case WTest
  with assms own show ?thesis
    by - (rule mutex_ok_update[where p = "if at_end d (next_index s) then WExit else WClaim"
          and w = w and s = s], auto)
next
  case WExit
  with assms own show ?thesis
    by - (rule mutex_ok_update[where p = WDone and w = w and s = s], auto)
next
  case WClaim
  with assms own show ?thesis
    by - (rule mutex_ok_update[where p = "WUnlock (next_index s)" and w = w and s = s], auto split: if_splits)
next
  case (WUnlock i)
  with assms own show ?thesis
    by - (rule mutex_ok_update[where p = "WWork i" and w = w and s = s], auto)
next
  case (WWork i)
  with assms own show ?thesis
    by - (rule mutex_ok_update[where p = WLock and w = w and s = s], auto split: option.splits)
next
  case WDone
  with assms show ?thesis by simp
qed
qed

lemma only_holder:
  assumes "mutex_ok s" "w < length (threads s)" "holds_mutex (threads s ! w)"
    "v < length (threads s)" "v \<noteq> w"
  shows "\<not> holds_mutex (threads s ! v)"
proof
  assume "holds_mutex (threads s ! v)"
  then have "index_m s = Some v" using assms(1,4) by (rule_tac mutex_held)
  moreover have "index_m s = Some w" using assms(1-3) by (rule mutex_held)
  ultimately show False using assms(5) by simp
qed

lemma worker_step_cursor:
  assumes "mutex_ok s" and "cursor_ok d s" and "w < length (threads s)"
    and "worker_step d w (threads s ! w) s = Inr s'"
  shows "cursor_ok d s'"
proof -
  have C: "0 \<le> next_index s" "next_index s \<le> INT_MAX"
    "\<And>v. v < length (threads s) \<Longrightarrow> threads s ! v = WClaim \<Longrightarrow> \<not> at_end d (next_index s)"
    "\<And>v. v < length (threads s) \<Longrightarrow> threads s ! v = WExit \<or> threads s ! v = WDone
        \<Longrightarrow> at_end d (next_index s)"
    using assms(2) unfolding cursor_ok_def by blast+
  have alone: "\<not> holds_mutex (threads s ! v)"
    if "holds_mutex (threads s ! w)" "v < length (threads s)" "v \<noteq> w" for v
    using only_holder[OF assms(1,3) that] .
  show ?thesis
  proof (cases "threads s ! w")
    case WLock
    with assms(4) have s': "s' = s\<lparr>index_m := Some w, threads := (threads s)[w := WTest]\<rparr>"
      by (simp split: option.splits)
    show ?thesis unfolding cursor_ok_def s' using assms(3) C WLock
      by (auto simp: nth_list_update split: if_splits)
  next
    case WTest
    with assms(4) have s': "s' = s\<lparr>threads := (threads s)[w :=
        (if at_end d (next_index s) then WExit else WClaim)]\<rparr>" by simp
    have "threads s ! v \<noteq> WClaim" if "v < length (threads s)" "v \<noteq> w" for v
      using alone[of v] that WTest by auto
    then show ?thesis unfolding cursor_ok_def s' using assms(3) C(1,2,4) 
      by (auto simp: nth_list_update split: if_splits)
  next
    case WExit
    with assms(4) have s': "s' = s\<lparr>index_m := None, threads := (threads s)[w := WDone]\<rparr>"
      by simp
    have "at_end d (next_index s)" using C(4)[of w] WExit assms(3) by simp
    moreover have "threads s ! v \<noteq> WClaim" if "v < length (threads s)" "v \<noteq> w" for v
      using alone[of v] that WExit by auto
    ultimately show ?thesis unfolding cursor_ok_def s' using assms(3) C(1,2)
      by (auto simp: nth_list_update split: if_splits)
  next
    case WClaim
    with assms(4) have s': "s' = s\<lparr>next_index := next_index s + 1,
        threads := (threads s)[w := WUnlock (next_index s)]\<rparr>"
      and nmax: "next_index s \<noteq> INT_MAX" by (simp_all split: if_splits)
    have ne: "\<not> at_end d (next_index s)" using C(3)[of w] WClaim assms(3) by simp
    have 1: "threads s ! v \<noteq> WClaim" if "v < length (threads s)" "v \<noteq> w" for v
      using alone[of v] that WClaim by auto
    have 2: "threads s ! v \<noteq> WExit \<and> threads s ! v \<noteq> WDone" if "v < length (threads s)" for v
      using C(4)[of v] that ne by blast
    show ?thesis unfolding cursor_ok_def s' using assms(3) C(1,2) nmax 1 2
      by (simp add: nth_list_update)
  next
    case (WUnlock i)
    with assms(4) have s': "s' = s\<lparr>index_m := None, threads := (threads s)[w := WWork i]\<rparr>"
      by simp
    show ?thesis unfolding cursor_ok_def s' using assms(3) C WUnlock
      by (auto simp: nth_list_update split: if_splits)
  next
    case (WWork i)
    with assms(4) obtain u where s': "s' = s\<lparr>threads := (threads s)[w := WLock],
        calls := calls s @ [i], shared := u\<rparr>" by (auto split: option.splits)
    show ?thesis unfolding cursor_ok_def s' using assms(3) C WWork
      by (auto simp: nth_list_update split: if_splits)
  next
    case WDone
    with assms(4) show ?thesis by simp
  qed
qed

lemma mset_set_cursor:
  "0 \<le> (n::int) \<Longrightarrow> mset_set {0..<n + 1} = add_mset n (mset_set {0..<n})"
proof -
  assume "0 \<le> n"
  then have "{0..<n + 1} = insert n {0..<n}" by auto
  then show ?thesis by simp
qed

lemma worker_step_claims:
  assumes "cursor_ok d s" and "claims_ok s" and "w < length (threads s)"
    and "worker_step d w (threads s ! w) s = Inr s'"
  shows "claims_ok s'"
proof -
  have pos: "0 \<le> next_index s" using assms(1) unfolding cursor_ok_def by blast
  have E: "mset (calls s) + in_flight (threads s) = mset_set {0..<next_index s}"
    using assms(2) unfolding claims_ok_def .
  note U = in_flight_update[OF assms(3)]
  show ?thesis
  proof (cases "threads s ! w")
    case WLock
    with assms(4) have s': "s' = s\<lparr>index_m := Some w, threads := (threads s)[w := WTest]\<rparr>"
      by (simp split: option.splits)
    show ?thesis unfolding claims_ok_def s' using E U[of WTest] WLock by simp
  next
    case WTest
    with assms(4) have s': "s' = s\<lparr>threads := (threads s)[w :=
        (if at_end d (next_index s) then WExit else WClaim)]\<rparr>" by simp
    show ?thesis unfolding claims_ok_def s' using E U[of WExit] U[of WClaim] WTest by simp
  next
    case WExit
    with assms(4) have s': "s' = s\<lparr>index_m := None, threads := (threads s)[w := WDone]\<rparr>"
      by simp
    show ?thesis unfolding claims_ok_def s' using E U[of WDone] WExit by simp
  next
    case WClaim
    with assms(4) have s': "s' = s\<lparr>next_index := next_index s + 1,
        threads := (threads s)[w := WUnlock (next_index s)]\<rparr>"
      by (simp_all split: if_splits)
    show ?thesis unfolding claims_ok_def s'
      using E U[of "WUnlock (next_index s)"] WClaim mset_set_cursor[OF pos] by simp
  next
    case (WUnlock i)
    with assms(4) have s': "s' = s\<lparr>index_m := None, threads := (threads s)[w := WWork i]\<rparr>"
      by simp
    show ?thesis unfolding claims_ok_def s' using E U[of "WWork i"] WUnlock by simp
  next
    case (WWork i)
    with assms(4) obtain u where s': "s' = s\<lparr>threads := (threads s)[w := WLock],
        calls := calls s @ [i], shared := u\<rparr>" by (auto split: option.splits)
    have "in_flight (threads s) = add_mset i (in_flight ((threads s)[w := WLock]))"
      using U[of WLock] WWork by simp
    then show ?thesis unfolding claims_ok_def s' using E by simp
  next
    case WDone
    with assms(4) show ?thesis by simp
  qed
qed

lemma worker_step_data:
  assumes "data_ok d u0 s" and "worker_step d w (threads s ! w) s = Inr s'"
  shows "data_ok d u0 s'"
  using assms
  by (cases "threads s ! w")
     (auto simp: data_ok_def run_calls_append split: option.splits if_splits)

lemma worker_step_length:
  "worker_step d w p s = Inr s' \<Longrightarrow> length (threads s') = length (threads s) \<and> caller s' = caller s"
  by (cases p) (auto split: option.splits if_splits)

lemma worker_step_others:
  "worker_step d w p s = Inr s' \<Longrightarrow> v \<noteq> w \<Longrightarrow> threads s' ! v = threads s ! v"
  by (cases p) (auto split: option.splits if_splits)

lemma worker_step_not_done:
  "worker_step d w p s = Inr s' \<Longrightarrow> p \<noteq> WDone"
  by (cases p) auto

lemma worker_step_caller:
  assumes "caller_ok d s" and "w < length (threads s)"
    and "worker_step d w (threads s ! w) s = Inr s'"
  shows "caller_ok d s'"
proof -
  note L = worker_step_length[OF assms(3)]
  have nd: "threads s ! w \<noteq> WDone" using assms(3) by (rule worker_step_not_done)
  have keep: "threads s' ! k = WDone" if "threads s ! k = WDone" for k
    using worker_step_others[OF assms(3), of k] that nd by (cases "k = w") auto
  show ?thesis
  proof (cases "caller s")
    case (MSpawn i)
    with assms(1) show ?thesis by (simp add: caller_ok_def L)
  next
    case (MJoin j)
    with assms(1) keep show ?thesis by (simp add: caller_ok_def L)
  next
    case MReturned
    with assms(1) keep show ?thesis by (simp add: caller_ok_def L)
  qed
qed

lemma mutex_ok_caller [simp]: "mutex_ok (s\<lparr>caller := c\<rparr>) = mutex_ok s"
  by (simp add: mutex_ok_def)

lemma main_step_mutex:
  assumes "mutex_ok s" and "main_step d (caller s) s = Inr s'"
  shows "mutex_ok s'"
proof (cases "caller s")
  case (MSpawn i)
  show ?thesis
  proof (cases "int i < nthreads d")
    case True
    with MSpawn assms(2) have s': "s' = s\<lparr>threads := threads s @ [WLock], caller := MSpawn (Suc i)\<rparr>"
      by simp
    have 1: "index_m s' = Some v" if "v < length (threads s')" "holds_mutex (threads s' ! v)" for v
    proof -
      from that have "v < length (threads s)" "holds_mutex (threads s ! v)"
        by (auto simp: s' nth_append split: if_splits)
      then show ?thesis using mutex_held[OF assms(1)] by (simp add: s')
    qed
    have 2: "v < length (threads s') \<and> holds_mutex (threads s' ! v)" if "index_m s' = Some v" for v
      using mutex_owner[OF assms(1), of v] that by (simp add: s' nth_append)
    show ?thesis unfolding mutex_ok_def using 1 2 by blast
  next
    case False
    with MSpawn assms(2) have "s' = s\<lparr>caller := MJoin 0\<rparr>" by simp
    with assms(1) show ?thesis by simp
  qed
next
  case (MJoin j)
  with assms(2) have "s' = s\<lparr>caller := MJoin (Suc j)\<rparr> \<or> s' = s\<lparr>caller := MReturned\<rparr>"
    by (auto split: if_splits)
  with assms(1) show ?thesis by auto
next
  case MReturned
  with assms(2) show ?thesis by simp
qed

lemma main_step_cursor:
  assumes "cursor_ok d s" and "main_step d (caller s) s = Inr s'"
  shows "cursor_ok d s'"
  using assms
  by (cases "caller s") (auto simp: cursor_ok_def nth_append split: if_splits)

lemma main_step_claims:
  assumes "claims_ok s" and "main_step d (caller s) s = Inr s'"
  shows "claims_ok s'"
  using assms
  by (cases "caller s") (auto simp: claims_ok_def in_flight_append split: if_splits)

lemma main_step_data:
  assumes "data_ok d u0 s" and "main_step d (caller s) s = Inr s'"
  shows "data_ok d u0 s'"
  using assms
  by (cases "caller s") (auto simp: data_ok_def split: if_splits)

lemma main_step_caller:
  assumes "caller_ok d s" and "main_step d (caller s) s = Inr s'"
  shows "caller_ok d s'"
  using assms
  by (cases "caller s") (auto simp: caller_ok_def less_Suc_eq split: if_splits)

lemma step_inv:
  assumes "dispatch_inv d u0 s" and "step d t s = Inr s'"
  shows "dispatch_inv d u0 s'"
proof (cases t)
  case Main
  with assms show ?thesis
    unfolding dispatch_inv_def
    using main_step_mutex main_step_cursor main_step_claims main_step_data main_step_caller
    by (metis step.simps(1))
next
  case (Worker w)
  with assms(2) have w: "w < length (threads s)"
    and st: "worker_step d w (threads s ! w) s = Inr s'"
    by (simp_all split: if_splits)
  from assms(1) have I: "mutex_ok s" "cursor_ok d s" "claims_ok s" "data_ok d u0 s" "caller_ok d s"
    unfolding dispatch_inv_def by blast+
  show ?thesis
    unfolding dispatch_inv_def
    using worker_step_mutex[OF I(1) w st] worker_step_cursor[OF I(1,2) w st]
      worker_step_claims[OF I(2,3) w st] worker_step_data[OF I(4) st]
      worker_step_caller[OF I(5) w st]
    by blast
qed

lemma exec_inv:
  "dispatch_inv d u0 s \<Longrightarrow> exec d sched s = Inr s' \<Longrightarrow> dispatch_inv d u0 s'"
proof (induction sched arbitrary: s)
  case Nil
  then show ?case by simp
next
  case (Cons t ts)
  then show ?case by (auto split: sum.splits dest: step_inv)
qed

lemma inv_start: "0 \<le> nthreads d \<Longrightarrow> dispatch_inv d u (start u)"
  unfolding dispatch_inv_def mutex_ok_def cursor_ok_def claims_ok_def data_ok_def caller_ok_def
  by (simp add: start_def INT_MAX_def)

lemma ranks_update:
  "w < length ps \<Longrightarrow> sum_list (map rank (ps[w := p])) + rank (ps ! w) = sum_list (map rank ps) + rank p"
  by (induction ps arbitrary: w) (auto simp: nth_Cons split: nat.splits)

lemma limit_at_end:
  "limit_is d lim \<Longrightarrow> cursor_ok d s \<Longrightarrow> at_end d (next_index s) = (next_index s = lim)"
  unfolding limit_is_def cursor_ok_def by blast

lemma worker_step_variant:
  assumes cl: "threads s ! w = WClaim \<Longrightarrow> next_index s < lim" and le: "next_index s \<le> lim"
    and w: "w < length (threads s)"
    and st: "worker_step d w (threads s ! w) s = Inr s'"
  shows "variant lim d s' < variant lim d s \<and> next_index s' \<le> lim"
proof -
  note U = ranks_update[OF w]
  show ?thesis
  proof (cases "threads s ! w")
    case WLock
    with st have s': "s' = s\<lparr>index_m := Some w, threads := (threads s)[w := WTest]\<rparr>"
      by (simp split: option.splits)
    show ?thesis unfolding variant_def s' using U[of WTest] WLock le by simp
  next
    case WTest
    with st have s': "s' = s\<lparr>threads := (threads s)[w :=
        (if at_end d (next_index s) then WExit else WClaim)]\<rparr>" by simp
    show ?thesis unfolding variant_def s' using U[of WExit] U[of WClaim] WTest le by simp
  next
    case WExit
    with st have s': "s' = s\<lparr>index_m := None, threads := (threads s)[w := WDone]\<rparr>"
      by simp
    show ?thesis unfolding variant_def s' using U[of WDone] WExit le by simp
  next
    case WClaim
    with st have s': "s' = s\<lparr>next_index := next_index s + 1,
        threads := (threads s)[w := WUnlock (next_index s)]\<rparr>"
      by (simp_all split: if_splits)
    have lt: "next_index s < lim" using cl WClaim by simp
    then have "nat (lim - next_index s) = Suc (nat (lim - (next_index s + 1)))" by simp
    then show ?thesis unfolding variant_def s'
      using U[of "WUnlock (next_index s)"] WClaim lt by simp
  next
    case (WUnlock i)
    with st have s': "s' = s\<lparr>index_m := None, threads := (threads s)[w := WWork i]\<rparr>"
      by simp
    show ?thesis unfolding variant_def s' using U[of "WWork i"] WUnlock le by simp
  next
    case (WWork i)
    with st obtain u where s': "s' = s\<lparr>threads := (threads s)[w := WLock],
        calls := calls s @ [i], shared := u\<rparr>" by (auto split: option.splits)
    show ?thesis unfolding variant_def s' using U[of WLock] WWork le by simp
  next
    case WDone
    with st show ?thesis by simp
  qed
qed

lemma main_step_variant:
  assumes c: "caller_ok d s" and st: "main_step d (caller s) s = Inr s'"
  shows "variant lim d s' < variant lim d s \<and> next_index s' = next_index s"
proof (cases "caller s")
  case (MSpawn i)
  show ?thesis
  proof (cases "int i < nthreads d")
    case True
    with MSpawn st have s': "s' = s\<lparr>threads := threads s @ [WLock], caller := MSpawn (Suc i)\<rparr>"
      by simp
    from True have "nat (nthreads d) - i = Suc (nat (nthreads d) - Suc i)" by linarith
    then show ?thesis unfolding variant_def s' using MSpawn by simp
  next
    case False
    with MSpawn st have s': "s' = s\<lparr>caller := MJoin 0\<rparr>" by simp
    show ?thesis unfolding variant_def s' using MSpawn by simp
  qed
next
  case (MJoin j)
  show ?thesis
  proof (cases "j < length (threads s)")
    case True
    with MJoin st have s': "s' = s\<lparr>caller := MJoin (Suc j)\<rparr>" by (simp split: if_splits)
    from c MJoin have "int (length (threads s)) = nthreads d" by (simp add: caller_ok_def)
    with True have "nat (nthreads d) - j = Suc (nat (nthreads d) - Suc j)" by linarith
    then show ?thesis unfolding variant_def s' using MJoin by simp
  next
    case False
    with MJoin st have s': "s' = s\<lparr>caller := MReturned\<rparr>" by simp
    show ?thesis unfolding variant_def s' using MJoin by simp
  qed
next
  case MReturned
  with st show ?thesis by simp
qed

lemma step_variant:
  assumes "limit_is d lim" and "dispatch_inv d u0 s" and "next_index s \<le> lim"
    and "step d t s = Inr s'"
  shows "variant lim d s' < variant lim d s \<and> next_index s' \<le> lim"
proof (cases t)
  case Main
  with assms(4) have "main_step d (caller s) s = Inr s'" by simp
  moreover have "caller_ok d s" using assms(2) unfolding dispatch_inv_def by blast
  ultimately show ?thesis using main_step_variant[of d s s' lim] assms(3) by simp
next
  case (Worker w)
  with assms(4) have w: "w < length (threads s)"
    and st: "worker_step d w (threads s ! w) s = Inr s'"
    by (simp_all split: if_splits)
  have c: "cursor_ok d s" using assms(2) unfolding dispatch_inv_def by blast
  have "next_index s < lim" if "threads s ! w = WClaim"
  proof -
    have "\<not> at_end d (next_index s)" using c w that unfolding cursor_ok_def by blast
    then show ?thesis using limit_at_end[OF assms(1) c] assms(3) by simp
  qed
  then show ?thesis using worker_step_variant[OF _ assms(3) w st] by simp
qed

lemma step_variant_max:
  assumes "dispatch_inv d u0 s" and "step d t s = Inr s'"
  shows "variant INT_MAX d s' < variant INT_MAX d s"
proof (cases t)
  case Main
  with assms(2) have "main_step d (caller s) s = Inr s'" by simp
  moreover have "caller_ok d s" using assms(1) unfolding dispatch_inv_def by blast
  ultimately show ?thesis using main_step_variant[of d s s' INT_MAX] by simp
next
  case (Worker w)
  with assms(2) have w: "w < length (threads s)"
    and st: "worker_step d w (threads s ! w) s = Inr s'"
    by (simp_all split: if_splits)
  have c: "cursor_ok d s" using assms(1) unfolding dispatch_inv_def by blast
  then have le: "next_index s \<le> INT_MAX" unfolding cursor_ok_def by blast
  have "next_index s < INT_MAX" if "threads s ! w = WClaim"
    using st that le by (simp split: if_splits)
  then show ?thesis using worker_step_variant[OF _ le w st] by simp
qed

lemma exec_variant:
  assumes "limit_is d lim"
  shows "dispatch_inv d u0 s \<Longrightarrow> next_index s \<le> lim \<Longrightarrow> exec d sched s = Inr s'
    \<Longrightarrow> length sched + variant lim d s' \<le> variant lim d s \<and> next_index s' \<le> lim"
proof (induction sched arbitrary: s)
  case Nil
  then show ?case by simp
next
  case (Cons t ts)
  from Cons.prems(3) obtain s1 where s1: "step d t s = Inr s1" and rest: "exec d ts s1 = Inr s'"
    by (auto split: sum.splits)
  note V = step_variant[OF assms Cons.prems(1,2) s1]
  have "dispatch_inv d u0 s1" using Cons.prems(1) s1 by (rule step_inv)
  from Cons.IH[OF this _ rest] V show ?case by simp
qed

lemma claimed_in_flight: "w < length ps \<Longrightarrow> claimed (ps ! w) \<subseteq># in_flight ps"
  by (induction ps arbitrary: w) (auto simp: nth_Cons subset_mset.add_increasing split: nat.splits)

lemma in_flight_range:
  assumes "cursor_ok d s" and "claims_ok s" and "w < length (threads s)"
    and "threads s ! w = WWork i \<or> threads s ! w = WUnlock i"
  shows "0 \<le> i \<and> i < next_index s"
proof -
  have "i \<in># claimed (threads s ! w)" using assms(4) by auto
  then have "i \<in># in_flight (threads s)"
    using claimed_in_flight[OF assms(3)] by (meson mset_subset_eqD)
  then have "i \<in># mset_set {0..<next_index s}"
    using assms(2) unfolding claims_ok_def by (metis union_iff)
  then show ?thesis by (simp add: elem_mset_set)
qed

lemma calls_range:
  assumes "claims_ok s" and "i \<in> set (calls s)"
  shows "0 \<le> i \<and> i < next_index s"
proof -
  have "i \<in># mset (calls s)" using assms(2) by simp
  then have "i \<in># mset_set {0..<next_index s}"
    using assms(1) unfolding claims_ok_def by (metis union_iff)
  then show ?thesis by (simp add: elem_mset_set)
qed

lemma step_progress:
  assumes inv: "dispatch_inv d u0 s" and nr: "caller s \<noteq> MReturned"
  shows "\<exists>t. step d t s \<noteq> Inl Blocked"
proof (cases "caller s")
  case (MSpawn i)
  then have "step d Main s \<noteq> Inl Blocked" by simp
  then show ?thesis by blast
next
  case MReturned
  with nr show ?thesis by simp
next
  case (MJoin j)
  have m: "mutex_ok s" using inv unfolding dispatch_inv_def by blast
  show ?thesis
  proof (cases "j < length (threads s)")
    case False
    with MJoin have "step d Main s \<noteq> Inl Blocked" by simp
    then show ?thesis by blast
  next
    case j: True
    show ?thesis
    proof (cases "index_m s")
      case (Some w)
      then have w: "w < length (threads s)" and h: "holds_mutex (threads s ! w)"
        using mutex_owner[OF m] by blast+
      from h have "worker_step d w (threads s ! w) s \<noteq> Inl Blocked"
        by (cases "threads s ! w") (auto split: if_splits)
      with w have "step d (Worker w) s \<noteq> Inl Blocked" by simp
      then show ?thesis by blast
    next
      case None
      show ?thesis
      proof (cases "threads s ! j = WDone")
        case True
        with MJoin j have "step d Main s \<noteq> Inl Blocked" by simp
        then show ?thesis by blast
      next
        case False
        have "\<not> holds_mutex (threads s ! j)" using mutex_held[OF m j] None by auto
        with False None have "worker_step d j (threads s ! j) s \<noteq> Inl Blocked"
          by (cases "threads s ! j") (auto split: option.splits)
        with j have "step d (Worker j) s \<noteq> Inl Blocked" by simp
        then show ?thesis by blast
      qed
    qed
  qed
qed

lemma step_defined:
  assumes lim: "limit_is d lim" and max: "lim \<le> INT_MAX"
    and inv: "dispatch_inv d u0 s" and le: "next_index s \<le> lim"
    and wk: "\<And>i. 0 \<le> i \<Longrightarrow> i < lim \<Longrightarrow> work d i (shared s) \<noteq> None"
  shows "step d t s \<noteq> Inl Undefined"
proof (cases t)
  case Main
  then show ?thesis by (cases "caller s") auto
next
  case (Worker w)
  have c: "cursor_ok d s" and cl: "claims_ok s" using inv unfolding dispatch_inv_def by blast+
  show ?thesis
  proof (cases "w < length (threads s)")
    case False
    with Worker show ?thesis by simp
  next
    case True
    have "worker_step d w (threads s ! w) s \<noteq> Inl Undefined"
    proof (cases "threads s ! w")
      case WClaim
      then have "\<not> at_end d (next_index s)" using c True unfolding cursor_ok_def by blast
      then have "next_index s \<noteq> lim" using limit_at_end[OF lim c] by simp
      with le max have "next_index s \<noteq> INT_MAX" by simp
      with WClaim show ?thesis by simp
    next
      case (WWork i)
      then have "0 \<le> i \<and> i < next_index s" using in_flight_range[OF c cl True] by blast
      with le have "work d i (shared s) \<noteq> None" using wk by simp
      with WWork show ?thesis by (auto split: option.splits)
    qed (auto split: option.splits)
    with Worker True show ?thesis by simp
  qed
qed

lemma exec_append:
  "exec d (xs @ ys) s = (case exec d xs s of Inl e \<Rightarrow> Inl e | Inr s' \<Rightarrow> exec d ys s')"
  by (induction xs arbitrary: s) (auto split: sum.splits)

lemma run_to_completion:
  assumes lim: "limit_is d lim" and max: "lim \<le> INT_MAX"
    and wk: "\<And>s i. dispatch_inv d u0 s \<Longrightarrow> next_index s \<le> lim \<Longrightarrow> 0 \<le> i \<Longrightarrow> i < lim
        \<Longrightarrow> work d i (shared s) \<noteq> None"
  shows "dispatch_inv d u0 s \<Longrightarrow> next_index s \<le> lim
    \<Longrightarrow> \<exists>sched s'. exec d sched s = Inr s' \<and> caller s' = MReturned"
proof (induction "variant lim d s" arbitrary: s rule: less_induct)
  case less
  show ?case
  proof (cases "caller s = MReturned")
    case True
    then have "exec d [] s = Inr s \<and> caller s = MReturned" by simp
    then show ?thesis by blast
  next
    case False
    then obtain t where t: "step d t s \<noteq> Inl Blocked"
      using step_progress[OF less.prems(1)] by blast
    have "step d t s \<noteq> Inl Undefined"
      using step_defined[OF lim max less.prems(1,2)] wk[OF less.prems(1,2)] by blast
    with t obtain s1 where s1: "step d t s = Inr s1"
      by (cases "step d t s") (auto intro: stop.exhaust)
    note V = step_variant[OF lim less.prems(1,2) s1]
    have "dispatch_inv d u0 s1" using less.prems(1) s1 by (rule step_inv)
    with less.hyps[of s1] V obtain sched s' where
      "exec d sched s1 = Inr s'" "caller s' = MReturned" by blast
    with s1 have "exec d (t # sched) s = Inr s' \<and> caller s' = MReturned" by simp
    then show ?thesis by blast
  qed
qed

lemma ParallelComp_sel [simp]:
  "at_end (ParallelComp num f M) n = (n = num)"
  "nthreads (ParallelComp num f M) = max (min num M) 1"
  "work (ParallelComp num f M) i u = Some (f i u)"
  by (simp_all add: ParallelComp_def)

lemma ParallelComp_limit: "limit_is (ParallelComp num f M) num"
  by (simp add: limit_is_def)

lemma ParallelAppi_sel [simp]:
  "at_end (ParallelAppi vec g M) n = (size_t_of n = int (length vec))"
  "nthreads (ParallelAppi vec g M) = max (min (int_cast (length vec)) M) 1"
  "work (ParallelAppi vec g M) i u =
     (if 0 \<le> i \<and> i < int (length vec) then g i (vec ! nat i) u else None)"
  by (simp_all add: ParallelAppi_def)

lemma ParallelAppi_limit: "limit_is (ParallelAppi vec g M) (int (length vec))"
  by (simp add: limit_is_def size_t_of_def INT_MAX_def)

lemma ParallelComp_inv:
  "exec (ParallelComp num f M) sched (start u) = Inr s \<Longrightarrow> dispatch_inv (ParallelComp num f M) u s"
  by (rule exec_inv[OF inv_start]) simp_all


lemma variant_start: "variant lim d (start u) = 5 * nat lim + 5 * nat (nthreads d) + 2"
  by (simp add: variant_def start_def)

lemma exec_start_variant:
  assumes "limit_is d lim" and "0 \<le> lim" and "0 \<le> nthreads d"
    and "exec d sched (start u) = Inr s"
  shows "length sched + variant lim d s \<le> 5 * nat lim + 5 * nat (nthreads d) + 2"
    and "next_index s \<le> lim"
proof -
  have "dispatch_inv d u (start u)" using assms(3) by (rule inv_start)
  moreover have "next_index (start u) \<le> lim" using assms(2) by (simp add: start_def)
  ultimately have "length sched + variant lim d s \<le> variant lim d (start u) \<and> next_index s \<le> lim"
    using assms(4) by (rule exec_variant[OF assms(1)])
  then show "length sched + variant lim d s \<le> 5 * nat lim + 5 * nat (nthreads d) + 2"
    and "next_index s \<le> lim" by (simp_all add: variant_start)
qed

lemma in_flight_all_done: "\<forall>p \<in> set ps. p = WDone \<Longrightarrow> in_flight ps = {#}"
  by (induction ps) auto

lemma returned_all_done:
  assumes "caller_ok d s" and "caller s = MReturned"
  shows "\<forall>p \<in> set (threads s). p = WDone" and "int (length (threads s)) = nthreads d"
  using assms by (auto simp: caller_ok_def in_set_conv_nth)

lemma returned_calls:
  assumes inv: "dispatch_inv d u0 s" and ret: "caller s = MReturned" and k: "1 \<le> nthreads d"
  shows "at_end d (next_index s) \<and> mset (calls s) = mset_set {0..<next_index s}"
proof -
  have c: "cursor_ok d s" and cl: "claims_ok s" and ca: "caller_ok d s"
    using inv unfolding dispatch_inv_def by blast+
  note D = returned_all_done[OF ca ret]
  from D(2) k have len: "0 < length (threads s)" by auto
  then have "threads s ! 0 = WDone" using D(1) by simp
  with len c have "at_end d (next_index s)" unfolding cursor_ok_def by blast
  moreover have "mset (calls s) = mset_set {0..<next_index s}"
    using cl in_flight_all_done[OF D(1)] unfolding claims_ok_def by simp
  ultimately show ?thesis by simp
qed



lemma ParallelComp_progress:
  assumes "0 \<le> num" "num \<le> INT_MAX"
    and ex: "exec (ParallelComp num f M) sched (start u) = Inr s"
    and nr: "caller s \<noteq> MReturned"
  shows "\<exists>t s'. step (ParallelComp num f M) t s = Inr s'"
proof -
  let ?d = "ParallelComp num f M"
  note inv = ParallelComp_inv[OF ex]
  have le: "next_index s \<le> num"
    by (rule exec_start_variant(2)[OF ParallelComp_limit assms(1) _ ex]) simp
  obtain t where t: "step ?d t s \<noteq> Inl Blocked" using step_progress[OF inv nr] by blast
  have "step ?d t s \<noteq> Inl Undefined"
    by (rule step_defined[OF ParallelComp_limit assms(2) inv le]) simp
  with t show ?thesis by (cases "step ?d t s") (auto intro: stop.exhaust)
qed

lemma ParallelComp_bound:
  assumes "0 \<le> num"
    and ex: "exec (ParallelComp num f M) sched (start u) = Inr s"
  shows "length sched \<le> 5 * nat num + 5 * nat (max (min num M) 1) + 2" "next_index s \<le> num"
proof -
  have k: "0 \<le> nthreads (ParallelComp num f M)" by simp
  note V = exec_start_variant[OF ParallelComp_limit assms(1) k ex]
  from V(1) show "length sched \<le> 5 * nat num + 5 * nat (max (min num M) 1) + 2" by simp
  from V(2) show "next_index s \<le> num" .
qed



lemma run_until_stop:
  "dispatch_inv d u0 s \<Longrightarrow>
   \<exists>sched. exec d sched s = Inl Undefined \<or> (\<exists>s'. exec d sched s = Inr s' \<and> caller s' = MReturned)"
proof (induction "variant INT_MAX d s" arbitrary: s rule: less_induct)
  case less
  show ?case
  proof (cases "caller s = MReturned")
    case True
    then have "exec d [] s = Inr s \<and> caller s = MReturned" by simp
    then show ?thesis by blast
  next
    case False
    then obtain t where t: "step d t s \<noteq> Inl Blocked"
      using step_progress[OF less.prems] by blast
    show ?thesis
    proof (cases "step d t s")
      case (Inl e)
      with t have "e = Undefined" by (cases e) auto
      with Inl have "exec d [t] s = Inl Undefined" by simp
      then show ?thesis by blast
    next
      case (Inr s1)
      note V = step_variant_max[OF less.prems Inr]
      have "dispatch_inv d u0 s1" using less.prems Inr by (rule step_inv)
      with less.hyps[OF V] obtain sched where
        "exec d sched s1 = Inl Undefined \<or> (\<exists>s'. exec d sched s1 = Inr s' \<and> caller s' = MReturned)"
        by blast
      with Inr have "exec d (t # sched) s = Inl Undefined \<or>
          (\<exists>s'. exec d (t # sched) s = Inr s' \<and> caller s' = MReturned)" by simp
      then show ?thesis by blast
    qed
  qed
qed

lemma negative_never_ends:
  assumes "num < 0" and ex: "exec (ParallelComp num f M) sched (start u) = Inr s"
  shows "next_index s \<noteq> num" and "\<forall>p \<in> set (threads s). p \<noteq> WExit \<and> p \<noteq> WDone"
    and "caller s \<noteq> MReturned"
proof -
  let ?d = "ParallelComp num f M"
  note inv = ParallelComp_inv[OF ex]
  have c: "cursor_ok ?d s" and ca: "caller_ok ?d s"
    using inv unfolding dispatch_inv_def by blast+
  have pos: "0 \<le> next_index s" using c unfolding cursor_ok_def by blast
  with assms(1) show ne: "next_index s \<noteq> num" by simp
  then have "\<not> at_end ?d (next_index s)" by simp
  then have "\<forall>w < length (threads s). threads s ! w \<noteq> WExit \<and> threads s ! w \<noteq> WDone"
    using c unfolding cursor_ok_def by blast
  then show nd: "\<forall>p \<in> set (threads s). p \<noteq> WExit \<and> p \<noteq> WDone"
    by (auto simp: in_set_conv_nth)
  show "caller s \<noteq> MReturned"
  proof
    assume ret: "caller s = MReturned"
    note D = returned_all_done[OF ca ret]
    from D(2) have "threads s \<noteq> []" by auto
    then obtain p where "p \<in> set (threads s)" by (cases "threads s") auto
    with D(1) nd show False by blast
  qed
qed

lemma exec_variant_max:
  "dispatch_inv d u0 s \<Longrightarrow> exec d sched s = Inr s'
    \<Longrightarrow> length sched + variant INT_MAX d s' \<le> variant INT_MAX d s"
proof (induction sched arbitrary: s)
  case Nil
  then show ?case by simp
next
  case (Cons t ts)
  from Cons.prems(2) obtain s1 where s1: "step d t s = Inr s1" and rest: "exec d ts s1 = Inr s'"
    by (auto split: sum.splits)
  note V = step_variant_max[OF Cons.prems(1) s1]
  have "dispatch_inv d u0 s1" using Cons.prems(1) s1 by (rule step_inv)
  from Cons.IH[OF this rest] V show ?case by simp
qed

lemma claim_cycle:
  assumes "threads s = [WLock]" and "index_m s = None" and "next_index s \<noteq> num"
    and "next_index s \<noteq> INT_MAX"
  shows "\<exists>s'. exec (ParallelComp num f M) [Worker 0, Worker 0, Worker 0, Worker 0, Worker 0] s
            = Inr s' \<and>
          threads s' = [WLock] \<and> index_m s' = None \<and> next_index s' = next_index s + 1 \<and>
          caller s' = caller s"
  using assms by simp

lemma claim_cycles:
  "threads s = [WLock] \<Longrightarrow> index_m s = None \<Longrightarrow> num < 0 \<Longrightarrow> 0 \<le> next_index s
   \<Longrightarrow> next_index s + int n \<le> INT_MAX
   \<Longrightarrow> \<exists>s'. exec (ParallelComp num f M)
            (concat (replicate n [Worker 0, Worker 0, Worker 0, Worker 0, Worker 0])) s = Inr s' \<and>
          threads s' = [WLock] \<and> index_m s' = None \<and> next_index s' = next_index s + int n \<and>
          caller s' = caller s"
proof (induction n arbitrary: s)
  case 0
  then show ?case by simp
next
  case (Suc n)
  have "next_index s \<noteq> num" "next_index s \<noteq> INT_MAX" using Suc.prems by auto
  from claim_cycle[OF Suc.prems(1,2) this, of f M] obtain s1 where
    s1: "exec (ParallelComp num f M) [Worker 0, Worker 0, Worker 0, Worker 0, Worker 0] s = Inr s1"
    and P: "threads s1 = [WLock]" "index_m s1 = None" "next_index s1 = next_index s + 1"
      "caller s1 = caller s" by blast
  have "0 \<le> next_index s1" "next_index s1 + int n \<le> INT_MAX" using P(3) Suc.prems by auto
  from Suc.IH[OF P(1,2) Suc.prems(3) this] obtain s' where
    s': "exec (ParallelComp num f M)
            (concat (replicate n [Worker 0, Worker 0, Worker 0, Worker 0, Worker 0])) s1 = Inr s'"
    and Q: "threads s' = [WLock]" "index_m s' = None" "next_index s' = next_index s1 + int n"
      "caller s' = caller s1" by blast
  have "exec (ParallelComp num f M)
      ([Worker 0, Worker 0, Worker 0, Worker 0, Worker 0] @
       concat (replicate n [Worker 0, Worker 0, Worker 0, Worker 0, Worker 0])) s = Inr s'"
    unfolding exec_append using s1 s' by simp
  then have "exec (ParallelComp num f M)
      (concat (replicate (Suc n) [Worker 0, Worker 0, Worker 0, Worker 0, Worker 0])) s = Inr s'"
    by simp
  with P Q show ?case by auto
qed

lemma ParallelComp_undefined_step:
  assumes "step (ParallelComp num f M) t s = Inl Undefined"
  shows "next_index s = INT_MAX \<and> (\<exists>w < length (threads s). t = Worker w \<and> threads s ! w = WClaim)"
proof (cases t)
  case Main
  with assms show ?thesis by (cases "caller s") (auto split: if_splits)
next
  case (Worker w)
  with assms show ?thesis
    by (cases "threads s ! w") (auto split: if_splits option.splits)
qed

text \<open>
  C9, as the spec states it, fails in its second half: for \<open>num < 0\<close> the loop does not
  run forever. The cursor is an \<^verbatim>\<open>int\<close>; here is the run of \<^verbatim>\<open>ParallelComp(-1, f, 1)\<close>
  in which the one worker claims the indices \<open>0, 1, \<dots>, INT_MAX - 1\<close> and then reaches
  \<^verbatim>\<open>next_index++\<close> with the cursor at \<open>INT_MAX\<close>: a signed overflow, undefined
  behaviour, after \<open>5 * INT_MAX + 4\<close> steps.
\<close>

theorem negative_count_counterexample:
  "exec (ParallelComp (- 1) record_index 1)
     (Main # concat (replicate 2147483647 [Worker 0, Worker 0, Worker 0, Worker 0, Worker 0])
        @ [Worker 0, Worker 0, Worker 0]) (start []) = Inl Undefined"
proof -
  let ?d = "ParallelComp (- 1) record_index 1 :: int list dispatch"
  let ?cyc = "concat (replicate 2147483647 [Worker 0, Worker 0, Worker 0, Worker 0, Worker 0])"
  define s0 :: "int list pstate" where
    "s0 = \<lparr>next_index = 0, index_m = None, threads = [WLock], caller = MSpawn 1,
      calls = [], shared = []\<rparr>"
  have a: "step ?d Main (start []) = Inr s0" by (simp add: start_def s0_def)
  have "\<exists>s'. exec ?d ?cyc s0 = Inr s' \<and> threads s' = [WLock] \<and> index_m s' = None \<and>
      next_index s' = next_index s0 + int 2147483647 \<and> caller s' = caller s0"
    by (rule claim_cycles) (simp_all add: s0_def INT_MAX_def)
  then obtain s1 where b: "exec ?d ?cyc s0 = Inr s1" and P: "threads s1 = [WLock]"
    "index_m s1 = None" "next_index s1 = INT_MAX" by (auto simp: s0_def INT_MAX_def)
  have c: "exec ?d [Worker 0, Worker 0, Worker 0] s1 = Inl Undefined"
    using P by (simp add: INT_MAX_def)
  have "exec ?d (?cyc @ [Worker 0, Worker 0, Worker 0]) s0 = Inl Undefined"
    unfolding exec_append using b c by simp
  then have "exec ?d (Main # (?cyc @ [Worker 0, Worker 0, Worker 0])) (start []) = Inl Undefined"
    unfolding exec.simps(2) using a by simp
  then show ?thesis by simp
qed

text \<open>
  C9, amended. For \<open>0 \<le> num\<close> the cursor starts at 0, stays in \<open>[0, num]\<close>, every
  interleaving of \<^verbatim>\<open>ParallelComp\<close> has at most \<open>5 num + 5 K + 2\<close> steps, no state before
  the return is stuck, and at the return every worker has left its loop. For \<open>num < 0\<close>
  the loop has no defined exit before the signed overflow: the cursor stays in
  \<open>[0, INT_MAX]\<close> and is never equal to \<open>num\<close>, so in no reachable state has a worker
  passed the exit test or left its loop, and the call never returns; some thread can always
  move; the only undefined step is the increment of a cursor equal to \<open>INT_MAX\<close>; every
  interleaving has at most \<open>5 INT_MAX + 7\<close> defined steps, and every one of them can be
  continued up to that overflow.
\<close>

theorem claim_loop_exits_iff_nonnegative:
  assumes "num \<le> INT_MAX"
    and "exec (ParallelComp num f M) sched (start u) = Inr s"
  shows "(0 \<le> num \<longrightarrow>
            0 \<le> next_index s \<and> next_index s \<le> num \<and>
            length sched \<le> 5 * nat num + 5 * nat (max (min num M) 1) + 2 \<and>
            (caller s \<noteq> MReturned \<longrightarrow> (\<exists>t s'. step (ParallelComp num f M) t s = Inr s')) \<and>
            (caller s = MReturned \<longrightarrow> (\<forall>p \<in> set (threads s). p = WDone))) \<and>
         (num < 0 \<longrightarrow>
            0 \<le> next_index s \<and> next_index s \<le> INT_MAX \<and> next_index s \<noteq> num \<and>
            (\<forall>p \<in> set (threads s). p \<noteq> WExit \<and> p \<noteq> WDone) \<and>
            caller s \<noteq> MReturned \<and>
            (\<exists>t. step (ParallelComp num f M) t s \<noteq> Inl Blocked) \<and>
            (\<forall>t. step (ParallelComp num f M) t s = Inl Undefined \<longrightarrow>
               next_index s = INT_MAX \<and>
               (\<exists>w < length (threads s). t = Worker w \<and> threads s ! w = WClaim)) \<and>
            length sched \<le> 5 * nat INT_MAX + 7 \<and>
            (\<exists>sched'. exec (ParallelComp num f M) (sched @ sched') (start u) = Inl Undefined))"
proof -
  let ?d = "ParallelComp num f M"
  note inv = ParallelComp_inv[OF assms(2)]
  have c: "cursor_ok ?d s" and ca: "caller_ok ?d s"
    using inv unfolding dispatch_inv_def by blast+
  have pos: "0 \<le> next_index s" and mx: "next_index s \<le> INT_MAX"
    using c unfolding cursor_ok_def by blast+
  have A: "0 \<le> num \<longrightarrow>
            0 \<le> next_index s \<and> next_index s \<le> num \<and>
            length sched \<le> 5 * nat num + 5 * nat (max (min num M) 1) + 2 \<and>
            (caller s \<noteq> MReturned \<longrightarrow> (\<exists>t s'. step ?d t s = Inr s')) \<and>
            (caller s = MReturned \<longrightarrow> (\<forall>p \<in> set (threads s). p = WDone))"
  proof
    assume n: "0 \<le> num"
    note B = ParallelComp_bound[OF n assms(2)]
    have "caller s \<noteq> MReturned \<longrightarrow> (\<exists>t s'. step ?d t s = Inr s')"
      using ParallelComp_progress[OF n assms] by blast
    moreover have "caller s = MReturned \<longrightarrow> (\<forall>p \<in> set (threads s). p = WDone)"
      using returned_all_done(1)[OF ca] by blast
    ultimately show "0 \<le> next_index s \<and> next_index s \<le> num \<and>
            length sched \<le> 5 * nat num + 5 * nat (max (min num M) 1) + 2 \<and>
            (caller s \<noteq> MReturned \<longrightarrow> (\<exists>t s'. step ?d t s = Inr s')) \<and>
            (caller s = MReturned \<longrightarrow> (\<forall>p \<in> set (threads s). p = WDone))"
      using pos B by blast
  qed
  have B: "num < 0 \<longrightarrow>
            0 \<le> next_index s \<and> next_index s \<le> INT_MAX \<and> next_index s \<noteq> num \<and>
            (\<forall>p \<in> set (threads s). p \<noteq> WExit \<and> p \<noteq> WDone) \<and>
            caller s \<noteq> MReturned \<and>
            (\<exists>t. step ?d t s \<noteq> Inl Blocked) \<and>
            (\<forall>t. step ?d t s = Inl Undefined \<longrightarrow>
               next_index s = INT_MAX \<and>
               (\<exists>w < length (threads s). t = Worker w \<and> threads s ! w = WClaim)) \<and>
            length sched \<le> 5 * nat INT_MAX + 7 \<and>
            (\<exists>sched'. exec ?d (sched @ sched') (start u) = Inl Undefined)"
  proof
    assume n: "num < 0"
    note N = negative_never_ends[OF n assms(2)]
    from N(3) have P: "\<exists>t. step ?d t s \<noteq> Inl Blocked" by (rule step_progress[OF inv])
    have U: "\<forall>t. step ?d t s = Inl Undefined \<longrightarrow>
               next_index s = INT_MAX \<and>
               (\<exists>w < length (threads s). t = Worker w \<and> threads s ! w = WClaim)"
      using ParallelComp_undefined_step by blast
    have k: "max (min num M) 1 = 1" using n by simp
    have "dispatch_inv ?d u (start u)" by (rule inv_start) simp
    from exec_variant_max[OF this assms(2)]
    have L: "length sched \<le> 5 * nat INT_MAX + 7" by (simp add: variant_start k)
    from run_until_stop[OF inv] obtain sched' where
      "exec ?d sched' s = Inl Undefined \<or> (\<exists>s'. exec ?d sched' s = Inr s' \<and> caller s' = MReturned)"
      ..
    then have "exec ?d sched' s = Inl Undefined"
    proof
      assume "exec ?d sched' s = Inl Undefined"
      then show ?thesis .
    next
      assume "\<exists>s'. exec ?d sched' s = Inr s' \<and> caller s' = MReturned"
      then obtain s' where s': "exec ?d sched' s = Inr s'" and r: "caller s' = MReturned"
        by blast
      have "exec ?d (sched @ sched') (start u) = Inr s'"
        unfolding exec_append using assms(2) s' by simp
      from negative_never_ends(3)[OF n this] r show ?thesis by simp
    qed
    then have "exec ?d (sched @ sched') (start u) = Inl Undefined"
      unfolding exec_append using assms(2) by simp
    then have E: "\<exists>sched'. exec ?d (sched @ sched') (start u) = Inl Undefined" by blast
    from pos mx N(1) N(2) N(3) P U L E
    show "0 \<le> next_index s \<and> next_index s \<le> INT_MAX \<and> next_index s \<noteq> num \<and>
            (\<forall>p \<in> set (threads s). p \<noteq> WExit \<and> p \<noteq> WDone) \<and>
            caller s \<noteq> MReturned \<and>
            (\<exists>t. step ?d t s \<noteq> Inl Blocked) \<and>
            (\<forall>t. step ?d t s = Inl Undefined \<longrightarrow>
               next_index s = INT_MAX \<and>
               (\<exists>w < length (threads s). t = Worker w \<and> threads s ! w = WClaim)) \<and>
            length sched \<le> 5 * nat INT_MAX + 7 \<and>
            (\<exists>sched'. exec ?d (sched @ sched') (start u) = Inl Undefined)"
      by (intro conjI)
  qed
  from A B show ?thesis by (rule conjI)
qed

theorem claim_loop_exits_iff_nonnegative_witness:
  "(1::int) \<le> INT_MAX \<and>
   exec (ParallelComp 1 record_index 3)
     [Main, Worker 0, Worker 0, Worker 0, Worker 0, Worker 0, Worker 0, Worker 0, Worker 0]
     (start []) =
     Inr \<lparr>next_index = 1, index_m = None, threads = [WDone], caller = MSpawn 1,
       calls = [0], shared = [0]\<rparr> \<and>
   (\<exists>t s'. step (ParallelComp 1 record_index 3) t
      \<lparr>next_index = 1, index_m = None, threads = [WDone], caller = MSpawn 1,
        calls = [0], shared = [0]\<rparr> = Inr s') \<and>
   (- 1::int) \<le> INT_MAX \<and>
   exec (ParallelComp (- 1) record_index 3)
     [Main, Worker 0, Worker 0, Worker 0, Worker 0, Worker 0, Worker 0, Worker 0, Worker 0]
     (start []) =
     Inr \<lparr>next_index = 2, index_m = Some 0, threads = [WUnlock 1], caller = MSpawn 1,
       calls = [0], shared = [0]\<rparr> \<and>
   (\<exists>t. step (ParallelComp (- 1) record_index 3) t
      \<lparr>next_index = 2, index_m = Some 0, threads = [WUnlock 1], caller = MSpawn 1,
        calls = [0], shared = [0]\<rparr> \<noteq> Inl Blocked) \<and>
   (\<exists>sched'. exec (ParallelComp (- 1) record_index 3)
      ([Main, Worker 0, Worker 0, Worker 0, Worker 0, Worker 0, Worker 0, Worker 0, Worker 0]
         @ sched') (start []) = Inl Undefined)"
proof -
  have a: "(1::int) \<le> INT_MAX" and b: "(- 1::int) \<le> INT_MAX" by (simp_all add: INT_MAX_def)
  have c: "exec (ParallelComp 1 record_index 3)
     [Main, Worker 0, Worker 0, Worker 0, Worker 0, Worker 0, Worker 0, Worker 0, Worker 0]
     (start []) =
     Inr \<lparr>next_index = 1, index_m = None, threads = [WDone], caller = MSpawn 1,
       calls = [0], shared = [0]\<rparr>"
    by (simp add: start_def record_index_def INT_MAX_def)
  have d: "exec (ParallelComp (- 1) record_index 3)
     [Main, Worker 0, Worker 0, Worker 0, Worker 0, Worker 0, Worker 0, Worker 0, Worker 0]
     (start []) =
     Inr \<lparr>next_index = 2, index_m = Some 0, threads = [WUnlock 1], caller = MSpawn 1,
       calls = [0], shared = [0]\<rparr>"
    by (simp add: start_def record_index_def INT_MAX_def)
  have e: "\<exists>t s'. step (ParallelComp 1 record_index 3) t
      \<lparr>next_index = 1, index_m = None, threads = [WDone], caller = MSpawn 1,
        calls = [0], shared = [0]\<rparr> = Inr s'"
    using claim_loop_exits_iff_nonnegative[OF a c] by simp
  note T = claim_loop_exits_iff_nonnegative[OF b d]
  have f: "\<exists>t. step (ParallelComp (- 1) record_index 3) t
      \<lparr>next_index = 2, index_m = Some 0, threads = [WUnlock 1], caller = MSpawn 1,
        calls = [0], shared = [0]\<rparr> \<noteq> Inl Blocked"
    using T by simp
  have g: "\<exists>sched'. exec (ParallelComp (- 1) record_index 3)
      ([Main, Worker 0, Worker 0, Worker 0, Worker 0, Worker 0, Worker 0, Worker 0, Worker 0]
         @ sched') (start []) = Inl Undefined"
    using T by simp
  from a c e b d f g show ?thesis by (intro conjI)
qed

lemma threads_bounded:
  assumes "caller_ok d s" and "0 \<le> nthreads d"
  shows "int (length (threads s)) \<le> nthreads d"
  using assms by (cases "caller s") (auto simp: caller_ok_def)




lemma spec_workers_eq: "0 \<le> N \<Longrightarrow> max (min N M) 1 = spec_workers N M"
  by (auto simp: spec_workers_def spec_clamp_def)

lemma int_cast_small: "int n \<le> INT_MAX \<Longrightarrow> int_cast n = int n"
  by (simp add: int_cast_def INT_MAX_def Let_def)

lemma worker_count_in_range:
  assumes "d = ParallelComp N f M \<or> (d = ParallelAppi vec g M \<and> N = int (length vec))"
    and "0 \<le> N" and "N \<le> INT_MAX"
    and "exec d sched (start u) = Inr s"
  shows "nthreads d = spec_workers N M \<and>
         int (length (threads s)) \<le> spec_workers N M \<and>
         (caller s = MReturned \<longrightarrow> int (length (threads s)) = spec_workers N M) \<and>
         (d = ParallelComp N f M \<longrightarrow> (\<forall>t. step d t s \<noteq> Inl Undefined))"
proof -
  have k: "nthreads d = spec_workers N M"
    using assms(1-3) by (auto simp: ParallelAppi_def int_cast_small spec_workers_eq)
  have k1: "1 \<le> nthreads d" using assms(1) by (auto simp: ParallelAppi_def)
  then have k0: "0 \<le> nthreads d" by simp
  have inv: "dispatch_inv d u s" using inv_start[OF k0] assms(4) by (rule exec_inv)
  then have ca: "caller_ok d s" unfolding dispatch_inv_def by blast
  have 2: "int (length (threads s)) \<le> spec_workers N M" using threads_bounded[OF ca k0] k by simp
  have 3: "caller s = MReturned \<longrightarrow> int (length (threads s)) = spec_workers N M"
    using returned_all_done(2)[OF ca] k by simp
  have 4: "d = ParallelComp N f M \<longrightarrow> (\<forall>t. step d t s \<noteq> Inl Undefined)"
  proof (intro impI allI)
    fix t assume d: "d = ParallelComp N f M"
    have "exec (ParallelComp N f M) sched (start u) = Inr s" using assms(4) d by simp
    then have le: "next_index s \<le> N" by (rule ParallelComp_bound(2)[OF assms(2)])
    show "step d t s \<noteq> Inl Undefined"
      unfolding d
      by (rule step_defined[OF ParallelComp_limit assms(3) inv[unfolded d] le]) simp
  qed
  from k 2 3 4 show ?thesis by blast
qed

lemma ParallelComp_returns_with_clamped_count:
  assumes "0 \<le> N" and "N \<le> INT_MAX"
  shows "\<exists>sched s. exec (ParallelComp N f M) sched (start u) = Inr s \<and> caller s = MReturned \<and>
           int (length (threads s)) = spec_workers N M"
proof -
  let ?d = "ParallelComp N f M"
  have "\<exists>sched s'. exec ?d sched (start u) = Inr s' \<and> caller s' = MReturned"
  proof (rule run_to_completion[OF ParallelComp_limit assms(2)])
    show "dispatch_inv ?d u (start u)" by (rule inv_start) simp
    show "next_index (start u) \<le> N" using assms(1) by (simp add: start_def)
    fix s :: "'a pstate" and i
    show "work ?d i (shared s) \<noteq> None" by simp
  qed
  then obtain sched s where ex: "exec ?d sched (start u) = Inr s" and ret: "caller s = MReturned"
    by blast
  have "caller_ok ?d s" using ParallelComp_inv[OF ex] unfolding dispatch_inv_def by blast
  from returned_all_done(2)[OF this ret]
  have "int (length (threads s)) = spec_workers N M" using spec_workers_eq[OF assms(1)] by simp
  with ex ret show ?thesis by blast
qed

text \<open>
  C7 fails for \<^verbatim>\<open>ParallelAppi\<close> on a vector of \<open>2 ^ 31\<close> elements with
  \<^verbatim>\<open>max_concurrency = 4\<close>: the spec's count is the clamp of 4 to \<open>[1, 2 ^ 31]\<close>, which
  is 4, but \<^verbatim>\<open>(int)vec.size()\<close> is \<open>- 2 ^ 31\<close>, the minimum with 4 is negative and the
  code starts one worker: after two steps of the caller the spawn loop is over with one
  thread started, and the caller waits in \<^verbatim>\<open>join\<close>. The source notes the defect ("This cast
  may really be unsafe, since these vectors could exceed 32 bit ints in practice"). For
  \<open>0 \<le> N \<le> INT_MAX\<close> the count is the spec's (lemmas \<open>worker_count_in_range\<close> and
  \<open>ParallelComp_returns_with_clamped_count\<close>).
\<close>

theorem ParallelAppi_cast_truncates_worker_count:
  "nthreads (ParallelAppi (replicate (2 ^ 31) x) g 4) = 1 \<and>
   spec_workers (int (length (replicate (2 ^ 31) x))) 4 = 4 \<and>
   exec (ParallelAppi (replicate (2 ^ 31) x) g 4) [Main, Main] (start u) =
     Inr \<lparr>next_index = 0, index_m = None, threads = [WLock], caller = MJoin 0,
          calls = [], shared = u\<rparr> \<and>
   step (ParallelAppi (replicate (2 ^ 31) x) g 4) Main
     \<lparr>next_index = 0, index_m = None, threads = [WLock], caller = MJoin 0,
      calls = [], shared = u\<rparr> = Inl Blocked"
  by (simp add: int_cast_def spec_workers_def spec_clamp_def start_def)

section \<open>Properties of \<^verbatim>\<open>ParallelMap\<close>\<close>

declare UnParallelMap_loop.simps [simp del]

lemma UnParallelMap_loop_small:
  "length result = length vec \<Longrightarrow> i \<le> length vec \<Longrightarrow> int (length vec) \<le> INT_MAX
   \<Longrightarrow> UnParallelMap_loop vec f i result = Inr (take i result @ map f (drop i vec))"
proof (induction vec f i result rule: UnParallelMap_loop.induct)
  case (1 vec f i result)
  show ?case
  proof (cases "i < length vec")
    case False
    with "1.prems" show ?thesis by (subst UnParallelMap_loop.simps) simp
  next
    case True
    with "1.prems" have ne: "int i \<noteq> INT_MAX" and ir: "i < length result" by simp_all
    have "UnParallelMap_loop vec f (Suc i) (result[i := f (vec ! i)]) =
        Inr (take (Suc i) (result[i := f (vec ! i)]) @ map f (drop (Suc i) vec))"
      using "1.IH"[OF True ir ne] "1.prems" True by simp
    moreover have "take (Suc i) (result[i := f (vec ! i)]) = take i result @ [f (vec ! i)]"
      using ir by (simp add: take_Suc_conv_app_nth)
    moreover have "drop i vec = vec ! i # drop (Suc i) vec"
      using True by (simp add: Cons_nth_drop_Suc)
    ultimately show ?thesis
      using True ir ne by (subst UnParallelMap_loop.simps) simp
  qed
qed

lemma UnParallelMap_loop_huge:
  "length result = length vec \<Longrightarrow> int i \<le> INT_MAX \<Longrightarrow> INT_MAX < int (length vec)
   \<Longrightarrow> UnParallelMap_loop vec f i result = Inl Undefined"
proof (induction vec f i result rule: UnParallelMap_loop.induct)
  case (1 vec f i result)
  from "1.prems" have lt: "i < length vec" and ir: "i < length result" by simp_all
  show ?case
  proof (cases "int i = INT_MAX")
    case True
    with lt ir show ?thesis by (subst UnParallelMap_loop.simps) simp
  next
    case False
    with "1.prems" have "int (Suc i) \<le> INT_MAX" by simp
    then have "UnParallelMap_loop vec f (Suc i) (result[i := f (vec ! i)]) = Inl Undefined"
      using "1.IH"[OF lt ir False] "1.prems" by simp
    with lt ir False show ?thesis by (subst UnParallelMap_loop.simps) simp
  qed
qed

lemma UnParallelMap_small:
  "int (length vec) \<le> INT_MAX \<Longrightarrow> UnParallelMap dflt vec f mc = Inr (map f vec)"
  by (simp add: UnParallelMap_def UnParallelMap_loop_small)

lemma UnParallelMap_huge:
  "INT_MAX < int (length vec) \<Longrightarrow> UnParallelMap dflt vec f mc = Inl Undefined"
  by (simp add: UnParallelMap_def UnParallelMap_loop_huge INT_MAX_def)

lemma run_calls_write:
  assumes "run_calls (ParallelAppi vec (run_write f) M) xs u = Some r"
    and "length u = length vec"
  shows "length r = length vec \<and>
         (\<forall>k < length vec. r ! k = (if int k \<in> set xs then f (vec ! k) else u ! k))"
  using assms
proof (induction xs arbitrary: u)
  case Nil
  then show ?case by simp
next
  case (Cons i xs)
  from Cons.prems(1) obtain u1 where
    w: "work (ParallelAppi vec (run_write f) M) i u = Some u1"
    and rest: "run_calls (ParallelAppi vec (run_write f) M) xs u1 = Some r"
    by (auto split: option.splits)
  from w Cons.prems(2) have i: "0 \<le> i" "i < int (length vec)"
    and u1: "u1 = u[nat i := f (vec ! nat i)]"
    by (auto simp: run_write_def split: if_splits)
  have len: "length u1 = length vec" using u1 Cons.prems(2) by simp
  note IH = Cons.IH[OF rest len]
  show ?case
  proof (intro conjI allI impI)
    show "length r = length vec" using IH by blast
  next
    fix k assume k: "k < length vec"
    then have rk: "r ! k = (if int k \<in> set xs then f (vec ! k) else u1 ! k)" using IH by blast
    have "u1 ! k = (if k = nat i then f (vec ! nat i) else u ! k)"
      using u1 k Cons.prems(2) by (simp add: nth_list_update)
    moreover have "(k = nat i) = (int k = i)" using i by auto
    ultimately show "r ! k = (if int k \<in> set (i # xs) then f (vec ! k) else u ! k)"
      using rk by auto
  qed
qed

lemma beyond_range_never_returns:
  assumes lim: "limit_is d lim" and out: "lim < 0 \<or> INT_MAX < lim" and k: "1 \<le> nthreads d"
    and inv: "dispatch_inv d u0 s"
  shows "caller s \<noteq> MReturned"
proof
  assume ret: "caller s = MReturned"
  have c: "cursor_ok d s" using inv unfolding dispatch_inv_def by blast
  have "at_end d (next_index s)" using returned_calls[OF inv ret k] by blast
  then have "next_index s = lim" using limit_at_end[OF lim c] by simp
  moreover have "0 \<le> next_index s" "next_index s \<le> INT_MAX"
    using c unfolding cursor_ok_def by blast+
  ultimately show False using out by auto
qed

lemma ParallelMap_inv:
  assumes "exec (ParallelAppi vec (run_write f) M) sched (start (replicate (length vec) dflt)) = Inr s"
  shows "dispatch_inv (ParallelAppi vec (run_write f) M) (replicate (length vec) dflt) s"
  by (rule exec_inv[OF inv_start assms]) simp

lemma ParallelMap_buffer:
  assumes "dispatch_inv (ParallelAppi vec (run_write f) M) (replicate (length vec) dflt) s"
  shows "length (shared s) = length vec"
    and "\<forall>k < length vec. shared s ! k = (if int k \<in> set (calls s) then f (vec ! k) else dflt)"
proof -
  have "run_calls (ParallelAppi vec (run_write f) M) (calls s) (replicate (length vec) dflt)
      = Some (shared s)"
    using assms unfolding dispatch_inv_def data_ok_def by blast
  from run_calls_write[OF this] show "length (shared s) = length vec"
    and "\<forall>k < length vec. shared s ! k = (if int k \<in> set (calls s) then f (vec ! k) else dflt)"
    by simp_all
qed

lemma ParallelMap_returned:
  assumes inv: "dispatch_inv (ParallelAppi vec (run_write f) M) (replicate (length vec) dflt) s"
    and ret: "caller s = MReturned"
  shows "shared s = map f vec"
proof -
  let ?d = "ParallelAppi vec (run_write f) M"
  have c: "cursor_ok ?d s" using inv unfolding dispatch_inv_def by blast
  have k: "1 \<le> nthreads ?d" by simp
  note R = returned_calls[OF inv ret k]
  then have "next_index s = int (length vec)"
    using limit_at_end[OF ParallelAppi_limit c] by simp
  with R have "mset (calls s) = mset_set {0..<int (length vec)}" by simp
  then have "set (calls s) = {0..<int (length vec)}"
    by (metis finite_atLeastLessThan_int finite_set_mset_mset_set set_mset_mset)
  then have "\<forall>k < length vec. shared s ! k = f (vec ! k)"
    using ParallelMap_buffer(2)[OF inv] by simp
  then show ?thesis using ParallelMap_buffer(1)[OF inv] by (simp add: list_eq_iff_nth_eq)
qed

lemma ParallelMap_small:
  assumes "int (length vec) \<le> INT_MAX"
  shows "(\<exists>sched. ParallelMap dflt vec f M sched = Inr r) = (r = map f vec)"
proof
  assume "\<exists>sched. ParallelMap dflt vec f M sched = Inr r"
  then obtain sched where "ParallelMap dflt vec f M sched = Inr r" by blast
  then obtain s where ex: "exec (ParallelAppi vec (run_write f) M) sched
        (start (replicate (length vec) dflt)) = Inr s"
    and ret: "caller s = MReturned" and r: "r = shared s"
    by (auto simp: ParallelMap_def split: sum.splits if_splits)
  show "r = map f vec" using ParallelMap_returned[OF ParallelMap_inv[OF ex] ret] r by simp
next
  assume r: "r = map f vec"
  let ?d = "ParallelAppi vec (run_write f) M"
  let ?u = "replicate (length vec) dflt"
  have "\<exists>sched s'. exec ?d sched (start ?u) = Inr s' \<and> caller s' = MReturned"
  proof (rule run_to_completion[OF ParallelAppi_limit assms])
    show "dispatch_inv ?d ?u (start ?u)" by (rule inv_start) simp
    show "next_index (start ?u) \<le> int (length vec)" by (simp add: start_def)
    fix s :: "'b list pstate" and i
    assume "dispatch_inv ?d ?u s" and "0 \<le> i" and "i < int (length vec)"
    then show "work ?d i (shared s) \<noteq> None"
      using ParallelMap_buffer(1)[of vec f M dflt s] by (simp add: run_write_def)
  qed
  then obtain sched s where ex: "exec ?d sched (start ?u) = Inr s"
    and ret: "caller s = MReturned" by blast
  have "shared s = map f vec" using ParallelMap_returned[OF ParallelMap_inv[OF ex] ret] .
  with ex ret r have "ParallelMap dflt vec f M sched = Inr r" by (simp add: ParallelMap_def)
  then show "\<exists>sched. ParallelMap dflt vec f M sched = Inr r" by blast
qed

lemma ParallelMap_huge:
  assumes "INT_MAX < int (length vec)"
  shows "ParallelMap dflt vec f M sched \<noteq> Inr r"
    and "\<exists>sched'. ParallelMap dflt vec f M sched' = Inl Undefined"
proof -
  let ?d = "ParallelAppi vec (run_write f) M"
  let ?u = "replicate (length vec) dflt"
  have k: "1 \<le> nthreads ?d" by simp
  have never: "caller s \<noteq> MReturned" if "exec ?d sch (start ?u) = Inr s" for sch s
    using beyond_range_never_returns[OF ParallelAppi_limit _ k ParallelMap_inv[OF that]] assms
    by simp
  then show "ParallelMap dflt vec f M sched \<noteq> Inr r"
    by (auto simp: ParallelMap_def split: sum.splits)
  have "dispatch_inv ?d ?u (start ?u)" by (rule inv_start) simp
  from run_until_stop[OF this] obtain sch where "exec ?d sch (start ?u) = Inl Undefined \<or>
      (\<exists>s'. exec ?d sch (start ?u) = Inr s' \<and> caller s' = MReturned)" ..
  with never have "exec ?d sch (start ?u) = Inl Undefined" by blast
  then have "ParallelMap dflt vec f M sch = Inl Undefined" by (simp add: ParallelMap_def)
  then show "\<exists>sched'. ParallelMap dflt vec f M sched' = Inl Undefined" by blast
qed

text \<open>
  C2 fails on a vector of \<open>2 ^ 31\<close> elements: the cursor is an \<^verbatim>\<open>int\<close>, it never
  equals \<^verbatim>\<open>vec.size()\<close>, so under no interleaving does \<^verbatim>\<open>ParallelMap\<close> return a vector,
  and some interleaving reaches the increment of \<open>INT_MAX\<close>. The source notes the
  defect ("This cast may really be unsafe, since these vectors could exceed 32 bit ints in
  practice"). For vectors of at most \<open>INT_MAX\<close> elements the result is \<open>map f vec\<close>
  (lemma \<open>ParallelMap_small\<close>).
\<close>

theorem ParallelMap_overflows_on_long_vector:
  "ParallelMap dflt (replicate (2 ^ 31) x) f M sched \<noteq> Inr r \<and>
   (\<exists>sched'. ParallelMap dflt (replicate (2 ^ 31) x) f M sched' = Inl Undefined)"
proof -
  have h: "INT_MAX < int (length (replicate (2 ^ 31) x))" by (simp add: INT_MAX_def)
  show ?thesis
    using ParallelMap_huge(1)[OF h, of dflt f M sched r] ParallelMap_huge(2)[OF h, of dflt f M]
    by (rule conjI)
qed

lemma ParallelMap_UnParallelMap_in_range:
  assumes "int (length items) \<le> INT_MAX"
  shows "((\<exists>sched. ParallelMap dflt items f M sched = Inr r) =
            (UnParallelMap dflt items f M' = Inr r)) \<and>
         UnParallelMap dflt items f M' = Inr (map f items) \<and>
         (\<exists>sched. ParallelMap dflt items f M sched = Inr (map f items))"
proof -
  have P: "(\<exists>sched. ParallelMap dflt items f M sched = Inr r') = (r' = map f items)" for r'
    by (rule ParallelMap_small[OF assms])
  have U: "UnParallelMap dflt items f M' = Inr (map f items)"
    by (rule UnParallelMap_small[OF assms])
  have "(\<exists>sched. ParallelMap dflt items f M sched = Inr r) = (UnParallelMap dflt items f M' = Inr r)"
    using P[of r] U by auto
  moreover have "\<exists>sched. ParallelMap dflt items f M sched = Inr (map f items)"
    using P[of "map f items"] by simp
  ultimately show ?thesis using U by blast
qed

text \<open>
  C3 fails on a vector of \<open>2 ^ 31\<close> elements, for every \<open>f\<close> and every \<open>M\<close> (those of
  \<open>[1, len]\<close> included): the baseline itself has no defined output, since the loop counter
  \<^verbatim>\<open>int i\<close> of \<^verbatim>\<open>UnParallelMap\<close> is incremented at \<open>INT_MAX\<close> before it can reach
  \<^verbatim>\<open>vec.size()\<close>, and under no interleaving does \<^verbatim>\<open>ParallelMap\<close> return a vector, in
  particular not \<open>map f items\<close> (the defect of C2). For vectors of at most \<open>INT_MAX\<close>
  elements the two agree (lemma \<open>ParallelMap_UnParallelMap_in_range\<close>).
\<close>

theorem baseline_undefined_on_long_vector:
  "UnParallelMap dflt (replicate (2 ^ 31) x) f M' = Inl Undefined \<and>
   ParallelMap dflt (replicate (2 ^ 31) x) f M sched \<noteq> Inr r \<and>
   ParallelMap dflt (replicate (2 ^ 31) x) f M sched \<noteq> Inr (map f (replicate (2 ^ 31) x))"
proof -
  have h: "INT_MAX < int (length (replicate (2 ^ 31) x))" by (simp add: INT_MAX_def)
  have a: "UnParallelMap dflt (replicate (2 ^ 31) x) f M' = Inl Undefined"
    by (rule UnParallelMap_huge[OF h])
  have b: "ParallelMap dflt (replicate (2 ^ 31) x) f M sched \<noteq> Inr r'" for r'
    by (rule ParallelMap_huge(1)[OF h])
  from a b[of r] b[of "map f (replicate (2 ^ 31) x)"] show ?thesis by (intro conjI)
qed

section \<open>Properties of the runner\<close>

lemma astep_cases [consumes 1, case_names Call Destroy RLock RTest RInc RUnlockAsync RSpawn
    RUnlockSync RSync TTask TLock TDec TUnlock DLock DTest DUnlockReturn DUnlockLoop]:
  assumes "astep a s = Inr s'"
  obtains
    (Call) "a = Call" "dtor s = DAlive" "s' = s\<lparr>runs := runs s @ [RLock]\<rparr>"
  | (Destroy) "a = Destroy" "dtor s = DAlive" "\<forall>p \<in> set (runs s). p = RDone"
      "s' = s\<lparr>dtor := DLock\<rparr>"
  | (RLock) c where "a = Step (Run c)" "c < length (runs s)" "runs s ! c = RLock" "m s = None"
      "s' = s\<lparr>m := Some (Run c), runs := (runs s)[c := RTest]\<rparr>"
  | (RTest) c where "a = Step (Run c)" "c < length (runs s)" "runs s ! c = RTest"
      "s' = s\<lparr>runs := (runs s)[c := (if threads_active s < max_threads s then RInc
                                        else RUnlockSync)]\<rparr>"
  | (RInc) c where "a = Step (Run c)" "c < length (runs s)" "runs s ! c = RInc"
      "threads_active s \<noteq> INT_MAX"
      "s' = s\<lparr>threads_active := threads_active s + 1, runs := (runs s)[c := RUnlockAsync]\<rparr>"
  | (RUnlockAsync) c where "a = Step (Run c)" "c < length (runs s)" "runs s ! c = RUnlockAsync"
      "s' = s\<lparr>m := None, runs := (runs s)[c := RSpawn]\<rparr>"
  | (RSpawn) c where "a = Step (Run c)" "c < length (runs s)" "runs s ! c = RSpawn"
      "s' = s\<lparr>runs := (runs s)[c := RDone], detached := detached s @ [(c, TTask)]\<rparr>"
  | (RUnlockSync) c where "a = Step (Run c)" "c < length (runs s)" "runs s ! c = RUnlockSync"
      "s' = s\<lparr>m := None, runs := (runs s)[c := RSync]\<rparr>"
  | (RSync) c where "a = Step (Run c)" "c < length (runs s)" "runs s ! c = RSync"
      "s' = s\<lparr>runs := (runs s)[c := RDone], executed := executed s @ [(c, Run c)]\<rparr>"
  | (TTask) k c where "a = Step (Detached k)" "k < length (detached s)"
      "detached s ! k = (c, TTask)"
      "s' = s\<lparr>detached := (detached s)[k := (c, TLock)], executed := executed s @ [(c, Detached k)]\<rparr>"
  | (TLock) k c where "a = Step (Detached k)" "k < length (detached s)"
      "detached s ! k = (c, TLock)" "m s = None"
      "s' = s\<lparr>m := Some (Detached k), detached := (detached s)[k := (c, TDec)]\<rparr>"
  | (TDec) k c where "a = Step (Detached k)" "k < length (detached s)"
      "detached s ! k = (c, TDec)" "threads_active s \<noteq> INT_MIN"
      "s' = s\<lparr>threads_active := threads_active s - 1,
               detached := (detached s)[k := (c, TUnlock)]\<rparr>"
  | (TUnlock) k c where "a = Step (Detached k)" "k < length (detached s)"
      "detached s ! k = (c, TUnlock)"
      "s' = s\<lparr>m := None, detached := (detached s)[k := (c, TDone)]\<rparr>"
  | (DLock) "a = Step Destructor" "dtor s = DLock" "m s = None"
      "s' = s\<lparr>m := Some Destructor, dtor := DTest\<rparr>"
  | (DTest) "a = Step Destructor" "dtor s = DTest"
      "s' = s\<lparr>dtor := (if threads_active s = 0 then DUnlockReturn else DUnlockLoop)\<rparr>"
  | (DUnlockReturn) "a = Step Destructor" "dtor s = DUnlockReturn"
      "s' = s\<lparr>m := None, dtor := DReturned\<rparr>"
  | (DUnlockLoop) "a = Step Destructor" "dtor s = DUnlockLoop"
      "s' = s\<lparr>m := None, dtor := DLock\<rparr>"
proof (cases a)
  case Call
  with assms show ?thesis by (auto split: if_splits intro: that(1))
next
  case Destroy
  with assms show ?thesis by (auto split: if_splits intro: that(2))
next
  case (Step ag)
  show ?thesis
  proof (cases ag)
    case (Run c)
    with Step assms have c: "c < length (runs s)" and st: "Run_step c (runs s ! c) s = Inr s'"
      by (simp_all split: if_splits)
    show ?thesis
    proof (cases "runs s ! c")
      case RLock
      with st show ?thesis using that(3)[of c] Step Run c by (auto split: option.splits)
    next
      case RTest
      with st show ?thesis using that(4)[of c] Step Run c by auto
    next
      case RInc
      with st show ?thesis using that(5)[of c] Step Run c by (auto split: if_splits)
    next
      case RUnlockAsync
      with st show ?thesis using that(6)[of c] Step Run c by auto
    next
      case RSpawn
      with st show ?thesis using that(7)[of c] Step Run c by auto
    next
      case RUnlockSync
      with st show ?thesis using that(8)[of c] Step Run c by auto
    next
      case RSync
      with st show ?thesis using that(9)[of c] Step Run c by auto
    next
      case RDone
      with st show ?thesis by simp
    qed
  next
    case (Detached k)
    obtain c pc where e: "detached s ! k = (c, pc)" by (cases "detached s ! k")
    with Detached Step assms have k: "k < length (detached s)"
      and st: "Detached_step k c pc s = Inr s'"
      by (simp_all split: if_splits)
    show ?thesis
    proof (cases pc)
      case TTask
      with st show ?thesis using that(10)[of k c] Step Detached k e by auto
    next
      case TLock
      with st show ?thesis using that(11)[of k c] Step Detached k e by (auto split: option.splits)
    next
      case TDec
      with st show ?thesis using that(12)[of k c] Step Detached k e by (auto split: if_splits)
    next
      case TUnlock
      with st show ?thesis using that(13)[of k c] Step Detached k e by auto
    next
      case TDone
      with st show ?thesis by simp
    qed
  next
    case Destructor
    with Step assms have st: "Destructor_step (dtor s) s = Inr s'" by simp
    show ?thesis
    proof (cases "dtor s")
      case DAlive
      with st show ?thesis by simp
    next
      case DLock
      with st show ?thesis using that(14) Step Destructor by (auto split: option.splits)
    next
      case DTest
      with st show ?thesis using that(15) Step Destructor by auto
    next
      case DUnlockReturn
      with st show ?thesis using that(16) Step Destructor by auto
    next
      case DUnlockLoop
      with st show ?thesis using that(17) Step Destructor by auto
    next
      case DReturned
      with st show ?thesis by simp
    qed
  qed
qed

lemma amutex_step:
  assumes ok: "amutex_ok s" and st: "astep a s = Inr s'"
  shows "amutex_ok s'"
  unfolding amutex_ok_def
proof
  fix b
  have hb: "holding s b = (m s = Some b)" using ok unfolding amutex_ok_def by blast
  have free: "m s = None \<Longrightarrow> \<not> holding s b" using hb by simp
  have own: "holding s x \<Longrightarrow> m s = Some x" for x using ok unfolding amutex_ok_def by blast
  from st show "holding s' b = (m s' = Some b)"
  proof (cases rule: astep_cases)
    case Call
    then show ?thesis using hb by (cases b) (auto simp: nth_append)
  next
    case Destroy
    then show ?thesis using hb by (cases b) auto
  next
    case (RLock c)
    then show ?thesis using free by (cases b) (auto simp: nth_list_update)
  next
    case (RTest c)
    then have "m s = Some (Run c)" using own[of "Run c"] by simp
    with RTest show ?thesis using hb by (cases b) (auto simp: nth_list_update)
  next
    case (RInc c)
    then have "m s = Some (Run c)" using own[of "Run c"] by simp
    with RInc show ?thesis using hb by (cases b) (auto simp: nth_list_update)
  next
    case (RUnlockAsync c)
    then have "m s = Some (Run c)" using own[of "Run c"] by simp
    with RUnlockAsync show ?thesis using hb by (cases b) (auto simp: nth_list_update)
  next
    case (RSpawn c)
    then have "\<not> holding s (Run c)" by simp
    with RSpawn show ?thesis using hb
      by (cases b) (auto simp: nth_list_update nth_append)
  next
    case (RUnlockSync c)
    then have "m s = Some (Run c)" using own[of "Run c"] by simp
    with RUnlockSync show ?thesis using hb by (cases b) (auto simp: nth_list_update)
  next
    case (RSync c)
    then have "\<not> holding s (Run c)" by simp
    with RSync show ?thesis using hb by (cases b) (auto simp: nth_list_update)
  next
    case (TTask k c)
    then have "\<not> holding s (Detached k)" by simp
    with TTask show ?thesis using hb by (cases b) (auto simp: nth_list_update)
  next
    case (TLock k c)
    then show ?thesis using free by (cases b) (auto simp: nth_list_update)
  next
    case (TDec k c)
    then have "m s = Some (Detached k)" using own[of "Detached k"] by simp
    with TDec show ?thesis using hb by (cases b) (auto simp: nth_list_update)
  next
    case (TUnlock k c)
    then have "m s = Some (Detached k)" using own[of "Detached k"] by simp
    with TUnlock show ?thesis using hb by (cases b) (auto simp: nth_list_update)
  next
    case DLock
    then show ?thesis using free by (cases b) auto
  next
    case DTest
    then have "m s = Some Destructor" using own[of Destructor] by simp
    with DTest show ?thesis using hb by (cases b) auto
  next
    case DUnlockReturn
    then have "m s = Some Destructor" using own[of Destructor] by simp
    with DUnlockReturn show ?thesis using hb by (cases b) auto
  next
    case DUnlockLoop
    then have "m s = Some Destructor" using own[of Destructor] by simp
    with DUnlockLoop show ?thesis using hb by (cases b) auto
  qed
qed

lemma filter_update_length:
  "i < length xs \<Longrightarrow>
     int (length (filter P (xs[i := y]))) =
       int (length (filter P xs)) - of_bool (P (xs ! i)) + of_bool (P y)"
proof (induction xs arbitrary: i)
  case Nil
  then show ?case by simp
next
  case (Cons x xs)
  show ?case
  proof (cases i)
    case 0
    then show ?thesis by simp
  next
    case (Suc j)
    with Cons.prems have "j < length xs" by simp
    from Cons.IH[OF this] Suc show ?thesis by simp
  qed
qed

lemma count_step:
  assumes ok: "count_ok s" and st: "astep a s = Inr s'"
  shows "count_ok s'"
  using st
proof (cases rule: astep_cases)
  case (RSpawn c)
  then show ?thesis using ok filter_update_length[of c "runs s" pending_run RDone]
    by (simp add: count_ok_def)
next
  case (RTest c)
  then show ?thesis using ok filter_update_length[of c "runs s" pending_run RInc]
      filter_update_length[of c "runs s" pending_run RUnlockSync]
    by (simp add: count_ok_def)
qed (use ok in \<open>simp_all add: count_ok_def filter_update_length\<close>)

lemma two_holders:
  assumes "amutex_ok s" and "holding s x" and "holding s y"
  shows "x = y"
proof -
  have "m s = Some x" "m s = Some y" using assms unfolding amutex_ok_def by blast+
  then show ?thesis by simp
qed

lemma capacity_step:
  assumes mx: "amutex_ok s" and ok: "capacity_ok s" and st: "astep a s = Inr s'"
  shows "capacity_ok s'"
proof -
  have le: "threads_active s \<le> max 0 (max_threads s)"
    and inc: "\<And>c. c < length (runs s) \<Longrightarrow> runs s ! c = RInc \<Longrightarrow> threads_active s < max_threads s"
    using ok unfolding capacity_ok_def by blast+
  have alone: "runs s ! c' \<noteq> RInc"
    if "holding s x" "x \<noteq> Run c'" "c' < length (runs s)" for x c'
  proof
    assume "runs s ! c' = RInc"
    then have "holding s (Run c')" using that(3) by simp
    with two_holders[OF mx that(1)] that(2) show False by blast
  qed
  from st show ?thesis
  proof (cases rule: astep_cases)
    case Call
    then show ?thesis using le inc by (auto simp: capacity_ok_def nth_append)
  next
    case Destroy
    then show ?thesis using le inc by (auto simp: capacity_ok_def)
  next
    case (RLock c)
    then show ?thesis using le inc by (auto simp: capacity_ok_def nth_list_update)
  next
    case (RTest c)
    then have "holding s (Run c)" by simp
    then have "\<forall>c' < length (runs s). c' \<noteq> c \<longrightarrow> runs s ! c' \<noteq> RInc"
      using alone[of "Run c"] by simp
    with RTest show ?thesis using le by (auto simp: capacity_ok_def nth_list_update)
  next
    case (RInc c)
    then have "holding s (Run c)" by simp
    then have "\<forall>c' < length (runs s). c' \<noteq> c \<longrightarrow> runs s ! c' \<noteq> RInc"
      using alone[of "Run c"] by simp
    moreover have "threads_active s < max_threads s" using inc RInc by blast
    ultimately show ?thesis using RInc by (auto simp: capacity_ok_def nth_list_update)
  next
    case (RUnlockAsync c)
    then show ?thesis using le inc by (auto simp: capacity_ok_def nth_list_update)
  next
    case (RSpawn c)
    then show ?thesis using le inc by (auto simp: capacity_ok_def nth_list_update)
  next
    case (RUnlockSync c)
    then show ?thesis using le inc by (auto simp: capacity_ok_def nth_list_update)
  next
    case (RSync c)
    then show ?thesis using le inc by (auto simp: capacity_ok_def nth_list_update)
  next
    case (TTask k c)
    then show ?thesis using le inc by (auto simp: capacity_ok_def)
  next
    case (TLock k c)
    then show ?thesis using le inc by (auto simp: capacity_ok_def)
  next
    case (TDec k c)
    then have "holding s (Detached k)" by simp
    then have "\<forall>c' < length (runs s). runs s ! c' \<noteq> RInc"
      using alone[of "Detached k"] by simp
    with TDec show ?thesis using le by (auto simp: capacity_ok_def)
  next
    case (TUnlock k c)
    then show ?thesis using le inc by (auto simp: capacity_ok_def)
  next
    case DLock
    then show ?thesis using le inc by (auto simp: capacity_ok_def)
  next
    case DTest
    then show ?thesis using le inc by (auto simp: capacity_ok_def)
  next
    case DUnlockReturn
    then show ?thesis using le inc by (auto simp: capacity_ok_def)
  next
    case DUnlockLoop
    then show ?thesis using le inc by (auto simp: capacity_ok_def)
  qed
qed

lemma no_pending_threads:
  assumes "int (length (filter pending_run rs)) + int (length (filter pending_thread ds)) = 0"
    and "e \<in> set ds"
  shows "snd e = TUnlock \<or> snd e = TDone"
proof -
  have "length (filter pending_thread ds) = 0" using assms(1) by linarith
  then have "filter pending_thread ds = []" by (rule length_0_conv[THEN iffD1])
  then have "\<not> pending_thread e" using assms(2) by (simp add: filter_empty_conv)
  then show ?thesis by (cases e; cases "snd e") auto
qed

lemma dtor_step:
  assumes mx: "amutex_ok s" and cn: "count_ok s" and ok: "dtor_ok s"
    and st: "astep a s = Inr s'"
  shows "dtor_ok s'"
proof -
  have runs_done: "dtor s \<noteq> DAlive \<Longrightarrow> c < length (runs s) \<Longrightarrow> runs s ! c = RDone" for c
    using ok unfolding dtor_ok_def by (metis nth_mem)
  have fin_th: "dtor s = DUnlockReturn \<or> dtor s = DReturned \<Longrightarrow> k < length (detached s)
        \<Longrightarrow> snd (detached s ! k) = TDone" for k
    using ok unfolding dtor_ok_def by (metis nth_mem)
  from st show ?thesis
  proof (cases rule: astep_cases)
    case Call
    then show ?thesis by (simp add: dtor_ok_def)
  next
    case Destroy
    then show ?thesis by (simp add: dtor_ok_def)
  next
    case (RLock c)
    then have "dtor s = DAlive" using runs_done[of c] by auto
    with RLock show ?thesis by (simp add: dtor_ok_def)
  next
    case (RTest c)
    then have "dtor s = DAlive" using runs_done[of c] by auto
    with RTest show ?thesis by (simp add: dtor_ok_def)
  next
    case (RInc c)
    then have "dtor s = DAlive" using runs_done[of c] by auto
    with RInc show ?thesis by (simp add: dtor_ok_def)
  next
    case (RUnlockAsync c)
    then have "dtor s = DAlive" using runs_done[of c] by auto
    with RUnlockAsync show ?thesis by (simp add: dtor_ok_def)
  next
    case (RSpawn c)
    then have "dtor s = DAlive" using runs_done[of c] by auto
    with RSpawn show ?thesis by (simp add: dtor_ok_def)
  next
    case (RUnlockSync c)
    then have "dtor s = DAlive" using runs_done[of c] by auto
    with RUnlockSync show ?thesis by (simp add: dtor_ok_def)
  next
    case (RSync c)
    then have "dtor s = DAlive" using runs_done[of c] by auto
    with RSync show ?thesis by (simp add: dtor_ok_def)
  next
    case (TTask k c)
    then have "\<not> (dtor s = DUnlockReturn \<or> dtor s = DReturned)" using fin_th[of k] by auto
    with TTask show ?thesis using ok by (auto simp: dtor_ok_def)
  next
    case (TLock k c)
    then have "\<not> (dtor s = DUnlockReturn \<or> dtor s = DReturned)" using fin_th[of k] by auto
    moreover have "holding s Destructor = (m s = Some Destructor)"
      using mx unfolding amutex_ok_def by blast
    then have "\<not> holding s Destructor" using TLock by simp
    ultimately show ?thesis using TLock ok by (auto simp: dtor_ok_def)
  next
    case (TDec k c)
    then have "holding s (Detached k)" by simp
    then have "\<not> holding s Destructor" using two_holders[OF mx] by blast
    moreover have "\<not> (dtor s = DUnlockReturn \<or> dtor s = DReturned)"
      using fin_th[of k] TDec by auto
    ultimately show ?thesis using TDec ok by (auto simp: dtor_ok_def)
  next
    case (TUnlock k c)
    then have "holding s (Detached k)" by simp
    then have "\<not> holding s Destructor" using two_holders[OF mx] by blast
    moreover have "\<not> (dtor s = DUnlockReturn \<or> dtor s = DReturned)"
      using fin_th[of k] TUnlock by auto
    ultimately show ?thesis using TUnlock ok by (auto simp: dtor_ok_def)
  next
    case DLock
    then show ?thesis using ok by (auto simp: dtor_ok_def)
  next
    case DTest
    have "snd e = TDone" if z: "threads_active s = 0" and e: "e \<in> set (detached s)" for e
    proof -
      have "snd e = TUnlock \<or> snd e = TDone"
        using no_pending_threads[of "runs s" "detached s" e] cn z e by (simp add: count_ok_def)
      moreover have "snd e \<noteq> TUnlock"
      proof
        assume u: "snd e = TUnlock"
        from e obtain k where "k < length (detached s)" "detached s ! k = e"
          by (auto simp: in_set_conv_nth)
        with u have "holding s (Detached k)" by simp
        moreover have "holding s Destructor" using DTest by simp
        ultimately show False using two_holders[OF mx] by blast
      qed
      ultimately show ?thesis by simp
    qed
    with DTest show ?thesis using ok by (auto simp: dtor_ok_def)
  next
    case DUnlockReturn
    then show ?thesis using ok by (auto simp: dtor_ok_def)
  next
    case DUnlockLoop
    then show ?thesis using ok by (auto simp: dtor_ok_def)
  qed
qed

lemma fst_set_update:
  assumes "k < length ds" and "ds ! k = (c, pc)"
  shows "fst ` set (ds[k := (c, pc')]) = fst ` set ds"
proof -
  have "map fst (ds[k := (c, pc')]) = (map fst ds)[k := (map fst ds) ! k]"
    using assms by (simp add: map_update)
  then have "map fst (ds[k := (c, pc')]) = map fst ds" by simp
  then have "set (map fst (ds[k := (c, pc')])) = set (map fst ds)" by simp
  then show ?thesis by simp
qed

lemma tasks_okI:
  assumes "\<And>e. e \<in> set (detached s) \<Longrightarrow> fst e < length (runs s) \<and> runs s ! fst e = RDone"
    and "\<And>e. e \<in> set (executed s) \<Longrightarrow> fst e < length (runs s)"
    and "\<And>c. c < length (runs s) \<Longrightarrow> (c, Run c) \<in> set (executed s) \<Longrightarrow>
        runs s ! c = RDone \<and> c \<notin> fst ` set (detached s)"
    and "\<And>c. c < length (runs s) \<Longrightarrow> runs s ! c = RDone \<Longrightarrow>
        (c, Run c) \<in> set (executed s) \<or> c \<in> fst ` set (detached s)"
    and "\<And>k. k < length (detached s) \<Longrightarrow> snd (detached s ! k) \<noteq> TTask \<Longrightarrow>
        (fst (detached s ! k), Detached k) \<in> set (executed s)"
  shows "tasks_ok s"
  unfolding tasks_ok_def using assms by blast

lemma tasks_ok_fields:
  assumes "tasks_ok s" and "runs s' = runs s" and "detached s' = detached s" and "executed s' = executed s"
  shows "tasks_ok s'"
  using assms by (simp add: tasks_ok_def)

lemma tasks_run_change:
  assumes ok: "tasks_ok s" and c: "c < length (runs s)" and nd: "runs s ! c \<noteq> RDone"
    and p: "p \<noteq> RDone"
    and R: "runs s' = (runs s)[c := p]" "detached s' = detached s" "executed s' = executed s"
  shows "tasks_ok s'"
proof -
  have T1: "\<And>e. e \<in> set (detached s) \<Longrightarrow> fst e < length (runs s) \<and> runs s ! fst e = RDone"
    and T2: "\<And>e. e \<in> set (executed s) \<Longrightarrow> fst e < length (runs s)"
    and T3: "\<And>c. c < length (runs s) \<Longrightarrow> (c, Run c) \<in> set (executed s) \<Longrightarrow>
        runs s ! c = RDone \<and> c \<notin> fst ` set (detached s)"
    and T4: "\<And>c. c < length (runs s) \<Longrightarrow> runs s ! c = RDone \<Longrightarrow>
        (c, Run c) \<in> set (executed s) \<or> c \<in> fst ` set (detached s)"
    and T5: "\<And>k. k < length (detached s) \<Longrightarrow> snd (detached s ! k) \<noteq> TTask \<Longrightarrow>
        (fst (detached s ! k), Detached k) \<in> set (executed s)"
    using ok unfolding tasks_ok_def by blast+
  show ?thesis
  proof (rule tasks_okI)
    fix e assume "e \<in> set (detached s')"
    with T1[of e] c nd show "fst e < length (runs s') \<and> runs s' ! fst e = RDone"
      by (auto simp: R nth_list_update)
  next
    fix e assume "e \<in> set (executed s')"
    with T2[of e] show "fst e < length (runs s')" by (simp add: R)
  next
    fix c' assume "c' < length (runs s')" "(c', Run c') \<in> set (executed s')"
    with T3[of c'] c nd show "runs s' ! c' = RDone \<and> c' \<notin> fst ` set (detached s')"
      by (auto simp: R nth_list_update)
  next
    fix c' assume "c' < length (runs s')" "runs s' ! c' = RDone"
    with T4[of c'] c p show "(c', Run c') \<in> set (executed s') \<or> c' \<in> fst ` set (detached s')"
      by (auto simp: R nth_list_update split: if_splits)
  next
    fix k assume "k < length (detached s')" "snd (detached s' ! k) \<noteq> TTask"
    with T5[of k] show "(fst (detached s' ! k), Detached k) \<in> set (executed s')" by (simp add: R)
  qed
qed

lemma tasks_thread_change:
  assumes ok: "tasks_ok s" and k: "k < length (detached s)" and e: "detached s ! k = (c, pc0)"
    and rn: "pc0 = TTask \<Longrightarrow> executed s' = executed s @ [(c, Detached k)]"
      "pc0 \<noteq> TTask \<Longrightarrow> executed s' = executed s"
    and pc: "pc \<noteq> TTask"
    and R: "runs s' = runs s" "detached s' = (detached s)[k := (c, pc)]"
  shows "tasks_ok s'"
proof -
  have T1: "\<And>e. e \<in> set (detached s) \<Longrightarrow> fst e < length (runs s) \<and> runs s ! fst e = RDone"
    and T2: "\<And>e. e \<in> set (executed s) \<Longrightarrow> fst e < length (runs s)"
    and T3: "\<And>c. c < length (runs s) \<Longrightarrow> (c, Run c) \<in> set (executed s) \<Longrightarrow>
        runs s ! c = RDone \<and> c \<notin> fst ` set (detached s)"
    and T4: "\<And>c. c < length (runs s) \<Longrightarrow> runs s ! c = RDone \<Longrightarrow>
        (c, Run c) \<in> set (executed s) \<or> c \<in> fst ` set (detached s)"
    and T5: "\<And>k. k < length (detached s) \<Longrightarrow> snd (detached s ! k) \<noteq> TTask \<Longrightarrow>
        (fst (detached s ! k), Detached k) \<in> set (executed s)"
    using ok unfolding tasks_ok_def by blast+
  have in_d: "(c, pc0) \<in> set (detached s)" using k e by (metis nth_mem)
  have F: "fst ` set (detached s') = fst ` set (detached s)"
    using fst_set_update[OF k e] by (simp add: R)
  have ran_sub: "set (executed s) \<subseteq> set (executed s')" using rn by (cases "pc0 = TTask") auto
  have ran_new: "x \<in> set (executed s') \<Longrightarrow> x \<in> set (executed s) \<or> x = (c, Detached k)" for x
    using rn by (cases "pc0 = TTask") auto
  show ?thesis
  proof (rule tasks_okI)
    fix x assume "x \<in> set (detached s')"
    then have "x = (c, pc) \<or> x \<in> set (detached s)"
      using set_update_subset_insert[of "detached s" k "(c, pc)"] by (auto simp: R)
    then show "fst x < length (runs s') \<and> runs s' ! fst x = RDone"
      using T1[of x] T1[OF in_d] by (auto simp: R)
  next
    fix x assume "x \<in> set (executed s')"
    with ran_new[of x] T2[of x] T1[OF in_d] show "fst x < length (runs s')"
      by (auto simp: R)
  next
    fix c' assume "c' < length (runs s')" "(c', Run c') \<in> set (executed s')"
    with ran_new[of "(c', Run c')"] T3[of c']
    show "runs s' ! c' = RDone \<and> c' \<notin> fst ` set (detached s')"
      by (auto simp: R(1) F)
  next
    fix c' assume "c' < length (runs s')" "runs s' ! c' = RDone"
    with T4[of c'] ran_sub show "(c', Run c') \<in> set (executed s') \<or> c' \<in> fst ` set (detached s')"
      by (auto simp: R(1) F)
  next
    fix k' assume a: "k' < length (detached s')" "snd (detached s' ! k') \<noteq> TTask"
    show "(fst (detached s' ! k'), Detached k') \<in> set (executed s')"
    proof (cases "k' = k")
      case True
      show ?thesis
      proof (cases "pc0 = TTask")
        case True
        with \<open>k' = k\<close> k rn(1) show ?thesis by (simp add: R)
      next
        case False
        with T5[of k] k e have "(c, Detached k) \<in> set (executed s)" by simp
        with \<open>k' = k\<close> k ran_sub show ?thesis by (auto simp: R)
      qed
    next
      case False
      with a T5[of k'] ran_sub show ?thesis by (auto simp: R)
    qed
  qed
qed

lemma tasks_step:
  assumes ok: "tasks_ok s" and st: "astep a s = Inr s'"
  shows "tasks_ok s'"
proof -
  have T1: "\<And>e. e \<in> set (detached s) \<Longrightarrow> fst e < length (runs s) \<and> runs s ! fst e = RDone"
    and T2: "\<And>e. e \<in> set (executed s) \<Longrightarrow> fst e < length (runs s)"
    and T3: "\<And>c. c < length (runs s) \<Longrightarrow> (c, Run c) \<in> set (executed s) \<Longrightarrow>
        runs s ! c = RDone \<and> c \<notin> fst ` set (detached s)"
    and T4: "\<And>c. c < length (runs s) \<Longrightarrow> runs s ! c = RDone \<Longrightarrow>
        (c, Run c) \<in> set (executed s) \<or> c \<in> fst ` set (detached s)"
    and T5: "\<And>k. k < length (detached s) \<Longrightarrow> snd (detached s ! k) \<noteq> TTask \<Longrightarrow>
        (fst (detached s ! k), Detached k) \<in> set (executed s)"
    using ok unfolding tasks_ok_def by blast+
  from st show ?thesis
  proof (cases rule: astep_cases)
    case Call
    then have R: "runs s' = runs s @ [RLock]" "detached s' = detached s" "executed s' = executed s"
      by simp_all
    show ?thesis
    proof (rule tasks_okI)
      fix e assume "e \<in> set (detached s')"
      with T1[of e] show "fst e < length (runs s') \<and> runs s' ! fst e = RDone"
        by (auto simp: R nth_append)
    next
      fix e assume "e \<in> set (executed s')"
      with T2[of e] show "fst e < length (runs s')" by (auto simp: R)
    next
      fix c assume "c < length (runs s')" "(c, Run c) \<in> set (executed s')"
      with T2[of "(c, Run c)"] T3[of c]
      show "runs s' ! c = RDone \<and> c \<notin> fst ` set (detached s')"
        by (auto simp: R nth_append)
    next
      fix c assume "c < length (runs s')" "runs s' ! c = RDone"
      with T4[of c] show "(c, Run c) \<in> set (executed s') \<or> c \<in> fst ` set (detached s')"
        by (auto simp: R nth_append split: if_splits)
    next
      fix k assume "k < length (detached s')" "snd (detached s' ! k) \<noteq> TTask"
      with T5[of k] show "(fst (detached s' ! k), Detached k) \<in> set (executed s')" by (simp add: R)
    qed
  next
    case Destroy
    then show ?thesis by (intro tasks_ok_fields[OF ok]) simp_all
  next
    case (RLock c)
    then show ?thesis by (intro tasks_run_change[OF ok, of c RTest]) simp_all
  next
    case (RTest c)
    then show ?thesis
      by (intro tasks_run_change[OF ok, of c
            "if threads_active s < max_threads s then RInc else RUnlockSync"]) simp_all
  next
    case (RInc c)
    then show ?thesis by (intro tasks_run_change[OF ok, of c RUnlockAsync]) simp_all
  next
    case (RUnlockAsync c)
    then show ?thesis by (intro tasks_run_change[OF ok, of c RSpawn]) simp_all
  next
    case (RUnlockSync c)
    then show ?thesis by (intro tasks_run_change[OF ok, of c RSync]) simp_all
  next
    case (RSpawn c)
    then have R: "runs s' = (runs s)[c := RDone]" "detached s' = detached s @ [(c, TTask)]"
      "executed s' = executed s" by simp_all
    note c = RSpawn(2) and pc = RSpawn(3)
    have nr: "(c, Run c) \<notin> set (executed s)" using T3[OF c] pc by auto
    show ?thesis
    proof (rule tasks_okI)
      fix e assume "e \<in> set (detached s')"
      with T1[of e] c show "fst e < length (runs s') \<and> runs s' ! fst e = RDone"
        by (auto simp: R nth_list_update)
    next
      fix e assume "e \<in> set (executed s')"
      with T2[of e] show "fst e < length (runs s')" by (simp add: R)
    next
      fix c' assume "c' < length (runs s')" "(c', Run c') \<in> set (executed s')"
      with T3[of c'] nr c show "runs s' ! c' = RDone \<and> c' \<notin> fst ` set (detached s')"
        by (auto simp: R nth_list_update)
    next
      fix c' assume "c' < length (runs s')" "runs s' ! c' = RDone"
      with T4[of c'] c show "(c', Run c') \<in> set (executed s') \<or> c' \<in> fst ` set (detached s')"
        by (auto simp: R nth_list_update split: if_splits)
    next
      fix k assume "k < length (detached s')" "snd (detached s' ! k) \<noteq> TTask"
      with T5[of k] show "(fst (detached s' ! k), Detached k) \<in> set (executed s')"
        by (auto simp: R nth_append split: if_splits)
    qed
  next
    case (RSync c)
    then have R: "runs s' = (runs s)[c := RDone]" "detached s' = detached s"
      "executed s' = executed s @ [(c, Run c)]" by simp_all
    note c = RSync(2) and pc = RSync(3)
    have nd: "c \<notin> fst ` set (detached s)" using T1 pc by force
    show ?thesis
    proof (rule tasks_okI)
      fix e assume "e \<in> set (detached s')"
      with T1[of e] c show "fst e < length (runs s') \<and> runs s' ! fst e = RDone"
        by (auto simp: R nth_list_update)
    next
      fix e assume "e \<in> set (executed s')"
      with T2[of e] c show "fst e < length (runs s')" by (auto simp: R)
    next
      fix c' assume "c' < length (runs s')" "(c', Run c') \<in> set (executed s')"
      with T3[of c'] nd c show "runs s' ! c' = RDone \<and> c' \<notin> fst ` set (detached s')"
        by (auto simp: R nth_list_update)
    next
      fix c' assume "c' < length (runs s')" "runs s' ! c' = RDone"
      with T4[of c'] c show "(c', Run c') \<in> set (executed s') \<or> c' \<in> fst ` set (detached s')"
        by (auto simp: R nth_list_update split: if_splits)
    next
      fix k assume "k < length (detached s')" "snd (detached s' ! k) \<noteq> TTask"
      with T5[of k] show "(fst (detached s' ! k), Detached k) \<in> set (executed s')"
        by (auto simp: R)
    qed
  next
    case (TTask k c)
    then show ?thesis by (intro tasks_thread_change[OF ok, of k c TTask s' TLock]) simp_all
  next
    case (TLock k c)
    then show ?thesis by (intro tasks_thread_change[OF ok, of k c TLock s' TDec]) simp_all
  next
    case (TDec k c)
    then show ?thesis by (intro tasks_thread_change[OF ok, of k c TDec s' TUnlock]) simp_all
  next
    case (TUnlock k c)
    then show ?thesis by (intro tasks_thread_change[OF ok, of k c TUnlock s' TDone]) simp_all
  next
    case DLock
    then show ?thesis by (intro tasks_ok_fields[OF ok]) simp_all
  next
    case DTest
    then show ?thesis by (intro tasks_ok_fields[OF ok]) simp_all
  next
    case DUnlockReturn
    then show ?thesis by (intro tasks_ok_fields[OF ok]) simp_all
  next
    case DUnlockLoop
    then show ?thesis by (intro tasks_ok_fields[OF ok]) simp_all
  qed
qed

lemma runner_inv_step:
  assumes "runner_inv s" and "astep a s = Inr s'"
  shows "runner_inv s'"
proof -
  from assms(1) have I: "amutex_ok s" "count_ok s" "capacity_ok s" "dtor_ok s" "tasks_ok s"
    unfolding runner_inv_def by blast+
  note st = assms(2)
  show ?thesis
    unfolding runner_inv_def
    using amutex_step[OF I(1) st] count_step[OF I(2) st] capacity_step[OF I(1,3) st]
      dtor_step[OF I(1,2,4) st] tasks_step[OF I(5) st]
    by blast
qed

lemma runner_inv_exec:
  "runner_inv s \<Longrightarrow> aexec as s = Inr s' \<Longrightarrow> runner_inv s'"
proof (induction as arbitrary: s)
  case Nil
  then show ?case by simp
next
  case (Cons a as)
  then show ?case by (auto split: sum.splits dest: runner_inv_step)
qed

lemma runner_inv_init: "runner_inv (Asynchronously n)"
proof -
  have "holding (Asynchronously n) a = (m (Asynchronously n) = Some a)" for a
    by (cases a) (simp_all add: Asynchronously_def)
  then have "amutex_ok (Asynchronously n)" unfolding amutex_ok_def by blast
  moreover have "count_ok (Asynchronously n)" "capacity_ok (Asynchronously n)"
    "dtor_ok (Asynchronously n)" "tasks_ok (Asynchronously n)"
    by (simp_all add: count_ok_def capacity_ok_def dtor_ok_def tasks_ok_def Asynchronously_def)
  ultimately show ?thesis unfolding runner_inv_def by blast
qed

lemma max_threads_step:
  assumes "astep a s = Inr s'"
  shows "max_threads s' = max_threads s"
  using assms by (cases rule: astep_cases) simp_all

lemma max_threads_exec: "aexec as s = Inr s' \<Longrightarrow> max_threads s' = max_threads s"
proof (induction as arbitrary: s)
  case Nil
  then show ?case by simp
next
  case (Cons a as)
  then show ?case by (auto split: sum.splits dest: max_threads_step)
qed

lemma reachable_inv:
  assumes "aexec as (Asynchronously n) = Inr s"
  shows "runner_inv s" and "max_threads s = n"
  using runner_inv_exec[OF runner_inv_init assms] max_threads_exec[OF assms]
  by (simp_all add: Asynchronously_def)

lemma mutex_free_after_return:
  assumes mx: "amutex_ok s" and r: "\<forall>p \<in> set (runs s). p = RDone"
    and d: "\<forall>e \<in> set (detached s). snd e = TDone" and z: "\<not> holding s Destructor"
  shows "m s = None"
proof (cases "m s")
  case None
  then show ?thesis .
next
  case (Some g)
  then have h: "holding s g" using mx unfolding amutex_ok_def by blast
  show ?thesis
  proof (cases g)
    case (Run c)
    with h have "c < length (runs s)" "runs s ! c \<noteq> RDone" by auto
    with r show ?thesis by (metis nth_mem)
  next
    case (Detached k)
    with h have "k < length (detached s)" "snd (detached s ! k) \<noteq> TDone" by auto
    with d show ?thesis by (metis nth_mem)
  next
    case Destructor
    with h z show ?thesis by simp
  qed
qed

lemma sync_only_step:
  assumes ok: "sync_only s" and cap: "max_threads s \<le> 0" and st: "astep a s = Inr s'"
  shows "sync_only s'"
proof -
  have S: "threads_active s = 0" "detached s = []"
    "\<And>p. p \<in> set (runs s) \<Longrightarrow> p = RLock \<or> p = RTest \<or> p = RUnlockSync \<or> p = RSync \<or> p = RDone"
    "\<And>e. e \<in> set (executed s) \<Longrightarrow> snd e = Run (fst e)"
    using ok unfolding sync_only_def by blast+
  have upd: "p' \<in> set ((runs s)[c := p]) \<Longrightarrow> p' = p \<or> p' \<in> set (runs s)" for p' c p
    using set_update_subset_insert[of "runs s" c p] by auto
  from st show ?thesis
  proof (cases rule: astep_cases)
    case Call
    then show ?thesis using S by (auto simp: sync_only_def)
  next
    case Destroy
    then show ?thesis using S by (auto simp: sync_only_def)
  next
    case (RLock c)
    then show ?thesis using S upd[of _ c RTest] by (auto simp: sync_only_def)
  next
    case (RTest c)
    then show ?thesis using S cap upd[of _ c RUnlockSync] by (auto simp: sync_only_def)
  next
    case (RInc c)
    then have "RInc \<in> set (runs s)" by (metis nth_mem)
    with S(3)[of RInc] show ?thesis by simp
  next
    case (RUnlockAsync c)
    then have "RUnlockAsync \<in> set (runs s)" by (metis nth_mem)
    with S(3)[of RUnlockAsync] show ?thesis by simp
  next
    case (RSpawn c)
    then have "RSpawn \<in> set (runs s)" by (metis nth_mem)
    with S(3)[of RSpawn] show ?thesis by simp
  next
    case (RUnlockSync c)
    then show ?thesis using S upd[of _ c RSync] by (auto simp: sync_only_def)
  next
    case (RSync c)
    then show ?thesis using S upd[of _ c RDone] by (auto simp: sync_only_def)
  next
    case (TTask k c)
    with S(2) show ?thesis by simp
  next
    case (TLock k c)
    with S(2) show ?thesis by simp
  next
    case (TDec k c)
    with S(2) show ?thesis by simp
  next
    case (TUnlock k c)
    with S(2) show ?thesis by simp
  next
    case DLock
    then show ?thesis using S by (auto simp: sync_only_def)
  next
    case DTest
    then show ?thesis using S by (auto simp: sync_only_def)
  next
    case DUnlockReturn
    then show ?thesis using S by (auto simp: sync_only_def)
  next
    case DUnlockLoop
    then show ?thesis using S by (auto simp: sync_only_def)
  qed
qed

lemma sync_only_exec:
  "sync_only s \<Longrightarrow> max_threads s \<le> 0 \<Longrightarrow> aexec as s = Inr s' \<Longrightarrow> sync_only s'"
proof (induction as arbitrary: s)
  case Nil
  then show ?case by simp
next
  case (Cons a as)
  from Cons.prems(3) obtain s1 where s1: "astep a s = Inr s1" and rest: "aexec as s1 = Inr s'"
    by (auto split: sum.splits)
  have "sync_only s1" using Cons.prems(1,2) s1 by (rule sync_only_step)
  moreover have "max_threads s1 \<le> 0" using max_threads_step[OF s1] Cons.prems(2) by simp
  ultimately show ?case using rest by (rule Cons.IH)
qed

lemma aexec_append:
  "aexec (xs @ ys) s = (case aexec xs s of Inl e \<Rightarrow> Inl e | Inr s' \<Rightarrow> aexec ys s')"
  by (induction xs arbitrary: s) (auto split: sum.splits)

lemma sum_list_map_update:
  "i < length xs \<Longrightarrow>
   sum_list (map f (xs[i := v])) + f (xs ! i) = sum_list (map f xs) + (f v :: nat)"
proof (induction xs arbitrary: i)
  case Nil
  then show ?case by simp
next
  case (Cons x xs)
  then show ?case by (cases i) auto
qed

lemma runs_length_step:
  assumes "astep (Step g) s = Inr s'"
  shows "length (runs s') = length (runs s)" and "dtor s' = DAlive \<longleftrightarrow> dtor s = DAlive"
  using assms by (cases rule: astep_cases; simp)+

lemma avariant_step:
  assumes "astep (Step g) s = Inr s'" and "g \<noteq> Destructor"
  shows "avariant s' < avariant s"
  using assms
proof (cases rule: astep_cases)
  case (RLock c)
  with sum_list_map_update[of c "runs s" rrank RTest] show ?thesis by (simp add: avariant_def)
next
  case (RTest c)
  with sum_list_map_update[of c "runs s" rrank RInc]
    sum_list_map_update[of c "runs s" rrank RUnlockSync] show ?thesis
    by (simp add: avariant_def)
next
  case (RInc c)
  with sum_list_map_update[of c "runs s" rrank RUnlockAsync] show ?thesis
    by (simp add: avariant_def)
next
  case (RUnlockAsync c)
  with sum_list_map_update[of c "runs s" rrank RSpawn] show ?thesis by (simp add: avariant_def)
next
  case (RSpawn c)
  with sum_list_map_update[of c "runs s" rrank RDone] show ?thesis by (simp add: avariant_def)
next
  case (RUnlockSync c)
  with sum_list_map_update[of c "runs s" rrank RSync] show ?thesis by (simp add: avariant_def)
next
  case (RSync c)
  with sum_list_map_update[of c "runs s" rrank RDone] show ?thesis by (simp add: avariant_def)
next
  case (TTask k c)
  with sum_list_map_update[of k "detached s" trank "(c, TLock)"] show ?thesis
    by (simp add: avariant_def)
next
  case (TLock k c)
  with sum_list_map_update[of k "detached s" trank "(c, TDec)"] show ?thesis
    by (simp add: avariant_def)
next
  case (TDec k c)
  with sum_list_map_update[of k "detached s" trank "(c, TUnlock)"] show ?thesis
    by (simp add: avariant_def)
next
  case (TUnlock k c)
  with sum_list_map_update[of k "detached s" trank "(c, TDone)"] show ?thesis
    by (simp add: avariant_def)
qed (use assms(2) in simp_all)

lemma steps_bounded:
  "dtor s = DAlive \<Longrightarrow> aexec (map Step gs) s = Inr s'
   \<Longrightarrow> length gs + avariant s' \<le> avariant s"
proof (induction gs arbitrary: s)
  case Nil
  then show ?case by simp
next
  case (Cons g gs)
  from Cons.prems(2) obtain s1 where s1: "astep (Step g) s = Inr s1"
    and rest: "aexec (map Step gs) s1 = Inr s'" by (auto split: sum.splits)
  have g: "g \<noteq> Destructor" using s1 Cons.prems(1) by auto
  have "dtor s1 = DAlive" using runs_length_step(2)[OF s1] Cons.prems(1) by simp
  from Cons.IH[OF this rest] avariant_step[OF s1 g] show ?case by simp
qed

lemma holder_moves:
  assumes inv: "runner_inv s" and cap: "max_threads s \<le> INT_MAX" and live: "dtor s = DAlive"
    and h: "m s = Some a"
  shows "\<exists>s'. astep (Step a) s = Inr s'" and "a \<noteq> Destructor"
proof -
  have mx: "amutex_ok s" and cn: "count_ok s" and cp: "capacity_ok s"
    using inv unfolding runner_inv_def by blast+
  have ha: "holding s a" using mx h unfolding amutex_ok_def by blast
  have pos: "0 \<le> threads_active s" using cn unfolding count_ok_def by simp
  then have nmin: "threads_active s \<noteq> INT_MIN" by (simp add: INT_MIN_def)
  show "a \<noteq> Destructor" using ha live by auto
  show "\<exists>s'. astep (Step a) s = Inr s'"
  proof (cases a)
    case (Run c)
    with ha have c: "c < length (runs s)"
      and p: "runs s ! c = RTest \<or> runs s ! c = RInc \<or> runs s ! c = RUnlockAsync \<or>
              runs s ! c = RUnlockSync" by auto
    have "threads_active s \<noteq> INT_MAX" if "runs s ! c = RInc"
    proof -
      have "threads_active s < max_threads s" using cp c that unfolding capacity_ok_def by blast
      with cap show ?thesis by simp
    qed
    with Run c p show ?thesis by auto
  next
    case (Detached k)
    with ha have k: "k < length (detached s)"
      and p: "snd (detached s ! k) = TDec \<or> snd (detached s ! k) = TUnlock" by auto
    with Detached nmin show ?thesis by auto
  next
    case Destructor
    with ha live show ?thesis by simp
  qed
qed

lemma run_progress:
  assumes inv: "runner_inv s" and cap: "max_threads s \<le> INT_MAX"
    and c: "c < length (runs s)" and nd: "runs s ! c \<noteq> RDone"
  shows "\<exists>g s'. g \<noteq> Destructor \<and> astep (Step g) s = Inr s'"
proof -
  have dt: "dtor_ok s" and mx: "amutex_ok s" using inv unfolding runner_inv_def by blast+
  have live: "dtor s = DAlive"
  proof (rule ccontr)
    assume "dtor s \<noteq> DAlive"
    then have "\<forall>p \<in> set (runs s). p = RDone" using dt unfolding dtor_ok_def by blast
    with c nd show False by (metis nth_mem)
  qed
  show ?thesis
  proof (cases "m s")
    case None
    have "holding s (Run c) = (m s = Some (Run c))" using mx unfolding amutex_ok_def by blast
    with None have "\<not> holding s (Run c)" by simp
    with c have "runs s ! c \<noteq> RTest" "runs s ! c \<noteq> RInc" "runs s ! c \<noteq> RUnlockAsync"
      "runs s ! c \<noteq> RUnlockSync" by auto
    with nd None c have "\<exists>s'. astep (Step (Run c)) s = Inr s'"
      by (cases "runs s ! c") auto
    then show ?thesis by blast
  next
    case (Some a)
    from holder_moves[OF inv cap live Some] show ?thesis by blast
  qed
qed

lemma run_completes:
  "runner_inv s \<Longrightarrow> max_threads s \<le> INT_MAX \<Longrightarrow> c < length (runs s)
   \<Longrightarrow> \<exists>gs s'. aexec (map Step gs) s = Inr s' \<and> runs s' ! c = RDone \<and>
         length gs \<le> avariant s"
proof (induction "avariant s" arbitrary: s rule: less_induct)
  case less
  show ?case
  proof (cases "runs s ! c = RDone")
    case True
    then have "aexec (map Step []) s = Inr s \<and> runs s ! c = RDone \<and> length [] \<le> avariant s"
      by simp
    then show ?thesis by blast
  next
    case False
    from run_progress[OF less.prems False] obtain g s1 where g: "g \<noteq> Destructor"
      and s1: "astep (Step g) s = Inr s1" by blast
    note V = avariant_step[OF s1 g]
    have "runner_inv s1" using less.prems(1) s1 by (rule runner_inv_step)
    moreover have "max_threads s1 \<le> INT_MAX" using max_threads_step[OF s1] less.prems(2) by simp
    moreover have "c < length (runs s1)" using runs_length_step(1)[OF s1] less.prems(3) by simp
    ultimately obtain gs s' where R: "aexec (map Step gs) s1 = Inr s'" "runs s' ! c = RDone"
      "length gs \<le> avariant s1" using less.hyps[OF V] by blast
    have "aexec (map Step (g # gs)) s = Inr s' \<and> runs s' ! c = RDone \<and>
        length (g # gs) \<le> avariant s" using s1 R V by simp
    then show ?thesis by blast
  qed
qed

lemma holder_steps:
  assumes inv: "runner_inv s" and cap: "max_threads s \<le> INT_MAX" and h: "m s = Some a"
  shows "\<exists>s'. astep (Step a) s = Inr s'"
proof (cases "dtor s = DAlive")
  case True
  then show ?thesis using holder_moves(1)[OF inv cap _ h] by blast
next
  case False
  have mx: "amutex_ok s" and cn: "count_ok s" using inv unfolding runner_inv_def by blast+
  have ha: "holding s a" using mx h unfolding amutex_ok_def by blast
  have pos: "0 \<le> threads_active s" using cn unfolding count_ok_def by simp
  then have nmin: "threads_active s \<noteq> INT_MIN" by (simp add: INT_MIN_def)
  have dt: "dtor_ok s" using inv unfolding runner_inv_def by blast
  with False have rd: "\<forall>p \<in> set (runs s). p = RDone" unfolding dtor_ok_def by blast
  show ?thesis
  proof (cases a)
    case (Run c)
    with ha have "c < length (runs s)" "runs s ! c \<noteq> RDone" by auto
    with rd show ?thesis by (metis nth_mem)
  next
    case (Detached k)
    with ha have k: "k < length (detached s)"
      and p: "snd (detached s ! k) = TDec \<or> snd (detached s ! k) = TUnlock" by auto
    with Detached nmin show ?thesis by auto
  next
    case Destructor
    with ha show ?thesis by (cases "dtor s") auto
  qed
qed

lemma holder_variant:
  assumes mx: "amutex_ok s" and h: "m s = Some a" and st: "astep (Step a) s = Inr s'"
  shows "avariant s' + drank (dtor s') < avariant s + drank (dtor s)"
proof (cases "a = Destructor")
  case True
  have "holding s Destructor" using mx h True unfolding amutex_ok_def by blast
  then have "dtor s = DTest \<or> dtor s = DUnlockReturn \<or> dtor s = DUnlockLoop" by simp
  with st True show ?thesis by (auto simp: avariant_def)
next
  case False
  have "dtor s' = dtor s" using st False by (cases rule: astep_cases) simp_all
  with avariant_step[OF st False] show ?thesis by simp
qed

lemma detached_fst_step:
  assumes "astep a s = Inr s'" and "k < length (detached s)"
  shows "k < length (detached s')" and "fst (detached s' ! k) = fst (detached s ! k)"
proof -
  have "k < length (detached s') \<and> fst (detached s' ! k) = fst (detached s ! k)"
    using assms
  proof (cases rule: astep_cases)
    case (TTask k' c)
    with assms(2) show ?thesis by (cases "k = k'") simp_all
  next
    case (TLock k' c)
    with assms(2) show ?thesis by (cases "k = k'") simp_all
  next
    case (TDec k' c)
    with assms(2) show ?thesis by (cases "k = k'") simp_all
  next
    case (TUnlock k' c)
    with assms(2) show ?thesis by (cases "k = k'") simp_all
  qed (simp_all add: nth_append)
  then show "k < length (detached s')" and "fst (detached s' ! k) = fst (detached s ! k)"
    by simp_all
qed

lemma thread_progress:
  assumes inv: "runner_inv s" and cap: "max_threads s \<le> INT_MAX"
    and k: "k < length (detached s)" and nd: "snd (detached s ! k) \<noteq> TDone"
  shows "\<exists>g s'. astep (Step g) s = Inr s' \<and>
           avariant s' + drank (dtor s') < avariant s + drank (dtor s)"
proof -
  have mx: "amutex_ok s" using inv unfolding runner_inv_def by blast
  show ?thesis
  proof (cases "m s")
    case None
    have "holding s (Detached k) = (m s = Some (Detached k))"
      using mx unfolding amutex_ok_def by blast
    with None have "\<not> holding s (Detached k)" by simp
    with k have "snd (detached s ! k) \<noteq> TDec" "snd (detached s ! k) \<noteq> TUnlock" by auto
    with nd None k obtain s' where s': "astep (Step (Detached k)) s = Inr s'"
      by (cases "snd (detached s ! k)") auto
    have "dtor s' = dtor s" using s' by (cases rule: astep_cases) simp_all
    with avariant_step[OF s'] have
      "avariant s' + drank (dtor s') < avariant s + drank (dtor s)" by simp
    with s' show ?thesis by blast
  next
    case (Some a)
    from holder_steps[OF inv cap Some] obtain s' where s': "astep (Step a) s = Inr s'" ..
    from holder_variant[OF mx Some s'] s' show ?thesis by blast
  qed
qed

lemma thread_completes:
  "runner_inv s \<Longrightarrow> max_threads s \<le> INT_MAX \<Longrightarrow> k < length (detached s)
   \<Longrightarrow> \<exists>gs s'. aexec (map Step gs) s = Inr s' \<and>
         detached s' ! k = (fst (detached s ! k), TDone) \<and>
         (fst (detached s ! k), Detached k) \<in> set (executed s')"
proof (induction "avariant s + drank (dtor s)" arbitrary: s rule: less_induct)
  case less
  show ?case
  proof (cases "snd (detached s ! k) = TDone")
    case True
    have ts: "tasks_ok s" using less.prems(1) unfolding runner_inv_def by blast
    have "snd (detached s ! k) \<noteq> TTask" using True by simp
    then have "(fst (detached s ! k), Detached k) \<in> set (executed s)"
      using ts less.prems(3) unfolding tasks_ok_def by blast
    moreover have "detached s ! k = (fst (detached s ! k), TDone)"
      using True by (cases "detached s ! k") simp
    ultimately have "aexec (map Step []) s = Inr s \<and>
         detached s ! k = (fst (detached s ! k), TDone) \<and>
         (fst (detached s ! k), Detached k) \<in> set (executed s)" by simp
    then show ?thesis by blast
  next
    case False
    from thread_progress[OF less.prems False] obtain g s1 where
      s1: "astep (Step g) s = Inr s1"
      and V: "avariant s1 + drank (dtor s1) < avariant s + drank (dtor s)" by blast
    have "runner_inv s1" using less.prems(1) s1 by (rule runner_inv_step)
    moreover have "max_threads s1 \<le> INT_MAX" using max_threads_step[OF s1] less.prems(2) by simp
    moreover note D = detached_fst_step[OF s1 less.prems(3)]
    ultimately obtain gs s' where R: "aexec (map Step gs) s1 = Inr s'"
      "detached s' ! k = (fst (detached s1 ! k), TDone)"
      "(fst (detached s1 ! k), Detached k) \<in> set (executed s')"
      using less.hyps[OF V] by blast
    have "aexec (map Step (g # gs)) s = Inr s' \<and>
         detached s' ! k = (fst (detached s ! k), TDone) \<and>
         (fst (detached s ! k), Detached k) \<in> set (executed s')"
      using s1 R D(2) by simp
    then show ?thesis by blast
  qed
qed

lemma runner_step_defined:
  assumes inv: "runner_inv s" and cap: "max_threads s \<le> INT_MAX"
  shows "astep (Step g) s \<noteq> Inl Undefined"
proof (cases g)
  case (Run c)
  have cp: "capacity_ok s" using inv unfolding runner_inv_def by blast
  show ?thesis
  proof (cases "c < length (runs s)")
    case True
    have "threads_active s \<noteq> INT_MAX" if "runs s ! c = RInc"
    proof -
      have "threads_active s < max_threads s" using cp True that unfolding capacity_ok_def by blast
      with cap show ?thesis by simp
    qed
    with Run True show ?thesis by (cases "runs s ! c") (auto split: option.splits)
  next
    case False
    with Run show ?thesis by simp
  qed
next
  case (Detached k)
  have cn: "count_ok s" using inv unfolding runner_inv_def by blast
  have "0 \<le> threads_active s" using cn unfolding count_ok_def by simp
  then have "threads_active s \<noteq> INT_MIN" by (simp add: INT_MIN_def)
  with Detached show ?thesis
    by (cases "snd (detached s ! k)") (auto split: option.splits)
next
  case Destructor
  then show ?thesis by (cases "dtor s") (auto split: option.splits)
qed

text \<open>
  C4. In every reachable state of a runner of capacity \<open>n\<close>, for every call \<open>c\<close> of
  \<^verbatim>\<open>Run\<close>: from the test, if \<^verbatim>\<open>threads_active < max_threads\<close> the call increments the
  counter, releases the mutex and starts a detached thread for its task, without running the
  task itself; otherwise it releases the mutex and runs the task on the calling thread before
  it returns. The detached thread runs the task, then takes the mutex, decrements the counter
  and releases the mutex. Under every interleaving, a call that has returned has either run
  its task itself or started a thread for it, never both, and a call that has not returned
  has done neither; a call about to increment still finds the counter below the capacity,
  and it holds the mutex from the test to the release.

  The call does get to its test and to its return: a call at \<^verbatim>\<open>m.lock()\<close> takes the mutex
  when it is free; the thread that holds the mutex can always make its next step; while the
  call has not returned some call or detached thread can make a step, no step is undefined
  and at most \<open>avariant\<close> steps can be made at all, so that the call returns under every
  schedule that runs the threads as long as one can move; and every detached thread can run
  to its end, where it has run its task.
\<close>

theorem Run_branches_on_capacity_test:
  assumes "n \<le> INT_MAX" and "aexec as (Asynchronously n) = Inr s" and "c < length (runs s)"
  shows "(runs s ! c = RTest \<and> threads_active s < max_threads s \<longrightarrow>
            aexec [Step (Run c), Step (Run c), Step (Run c), Step (Run c)] s =
              Inr (s\<lparr>threads_active := threads_active s + 1, m := None,
                     runs := (runs s)[c := RDone], detached := detached s @ [(c, TTask)]\<rparr>)) \<and>
         (runs s ! c = RTest \<and> \<not> threads_active s < max_threads s \<longrightarrow>
            aexec [Step (Run c), Step (Run c), Step (Run c)] s =
              Inr (s\<lparr>m := None, runs := (runs s)[c := RDone],
                     executed := executed s @ [(c, Run c)]\<rparr>)) \<and>
         (\<forall>k < length (detached s). detached s ! k = (c, TTask) \<and> m s = None \<longrightarrow>
            aexec [Step (Detached k), Step (Detached k), Step (Detached k), Step (Detached k)] s =
              Inr (s\<lparr>threads_active := threads_active s - 1, m := None,
                     detached := (detached s)[k := (c, TDone)],
                     executed := executed s @ [(c, Detached k)]\<rparr>)) \<and>
         (runs s ! c = RDone \<longrightarrow>
            ((c, Run c) \<in> set (executed s)) \<noteq> (c \<in> fst ` set (detached s))) \<and>
         (runs s ! c \<noteq> RDone \<longrightarrow>
            (c, Run c) \<notin> set (executed s) \<and> c \<notin> fst ` set (detached s)) \<and>
         (runs s ! c = RInc \<longrightarrow> threads_active s < max_threads s) \<and>
         (runs s ! c = RTest \<or> runs s ! c = RInc \<or> runs s ! c = RUnlockAsync \<or>
          runs s ! c = RUnlockSync \<longrightarrow> m s = Some (Run c)) \<and>
         (runs s ! c = RLock \<and> m s = None \<longrightarrow>
            astep (Step (Run c)) s = Inr (s\<lparr>m := Some (Run c), runs := (runs s)[c := RTest]\<rparr>)) \<and>
         (\<forall>a. m s = Some a \<longrightarrow> (\<exists>s'. astep (Step a) s = Inr s')) \<and>
         (runs s ! c \<noteq> RDone \<longrightarrow> (\<exists>g s'. g \<noteq> Destructor \<and> astep (Step g) s = Inr s')) \<and>
         (\<exists>gs s'. aexec (map Step gs) s = Inr s' \<and> runs s' ! c = RDone \<and>
            length gs \<le> avariant s) \<and>
         (runs s ! c \<noteq> RDone \<longrightarrow>
            (\<forall>gs s'. aexec (map Step gs) s = Inr s' \<longrightarrow> length gs + avariant s' \<le> avariant s)) \<and>
         (\<forall>k < length (detached s). \<exists>gs s'. aexec (map Step gs) s = Inr s' \<and>
            detached s' ! k = (fst (detached s ! k), TDone) \<and>
            (fst (detached s ! k), Detached k) \<in> set (executed s')) \<and>
         (\<forall>g. astep (Step g) s \<noteq> Inl Undefined)"
proof -
  note I = reachable_inv[OF assms(2)]
  have cn: "count_ok s" and ts: "tasks_ok s" and mx: "amutex_ok s" and cp: "capacity_ok s"
    and dt: "dtor_ok s"
    using I(1) unfolding runner_inv_def by blast+
  have cap: "max_threads s \<le> INT_MAX" using I(2) assms(1) by simp
  have pos: "0 \<le> threads_active s" using cn unfolding count_ok_def by simp
  have T1: "\<And>e. e \<in> set (detached s) \<Longrightarrow> runs s ! fst e = RDone"
    and T3: "(c, Run c) \<in> set (executed s) \<Longrightarrow> runs s ! c = RDone \<and> c \<notin> fst ` set (detached s)"
    and T4: "runs s ! c = RDone \<Longrightarrow> (c, Run c) \<in> set (executed s) \<or> c \<in> fst ` set (detached s)"
    using ts assms(3) unfolding tasks_ok_def by blast+
  have 1: "runs s ! c = RTest \<and> threads_active s < max_threads s \<longrightarrow>
            aexec [Step (Run c), Step (Run c), Step (Run c), Step (Run c)] s =
              Inr (s\<lparr>threads_active := threads_active s + 1, m := None,
                     runs := (runs s)[c := RDone], detached := detached s @ [(c, TTask)]\<rparr>)"
  proof
    assume a: "runs s ! c = RTest \<and> threads_active s < max_threads s"
    then have "threads_active s \<noteq> INT_MAX" using cap by simp
    with a assms(3) show "aexec [Step (Run c), Step (Run c), Step (Run c), Step (Run c)] s =
              Inr (s\<lparr>threads_active := threads_active s + 1, m := None,
                     runs := (runs s)[c := RDone], detached := detached s @ [(c, TTask)]\<rparr>)"
      by simp
  qed
  have 2: "runs s ! c = RTest \<and> \<not> threads_active s < max_threads s \<longrightarrow>
            aexec [Step (Run c), Step (Run c), Step (Run c)] s =
              Inr (s\<lparr>m := None, runs := (runs s)[c := RDone],
                     executed := executed s @ [(c, Run c)]\<rparr>)"
    using assms(3) by simp
  have 3: "\<forall>k < length (detached s). detached s ! k = (c, TTask) \<and> m s = None \<longrightarrow>
            aexec [Step (Detached k), Step (Detached k), Step (Detached k), Step (Detached k)] s =
              Inr (s\<lparr>threads_active := threads_active s - 1, m := None,
                     detached := (detached s)[k := (c, TDone)],
                     executed := executed s @ [(c, Detached k)]\<rparr>)"
  proof (intro allI impI)
    fix k assume k: "k < length (detached s)" and a: "detached s ! k = (c, TTask) \<and> m s = None"
    have "threads_active s \<noteq> INT_MIN" using pos by (simp add: INT_MIN_def)
    with k a show
      "aexec [Step (Detached k), Step (Detached k), Step (Detached k), Step (Detached k)] s =
              Inr (s\<lparr>threads_active := threads_active s - 1, m := None,
                     detached := (detached s)[k := (c, TDone)],
                     executed := executed s @ [(c, Detached k)]\<rparr>)" by simp
  qed
  have 4: "runs s ! c = RDone \<longrightarrow>
            ((c, Run c) \<in> set (executed s)) \<noteq> (c \<in> fst ` set (detached s))"
    using T3 T4 by blast
  have 5: "runs s ! c \<noteq> RDone \<longrightarrow>
            (c, Run c) \<notin> set (executed s) \<and> c \<notin> fst ` set (detached s)"
    using T3 T1 by force
  have 6: "runs s ! c = RInc \<longrightarrow> threads_active s < max_threads s"
    using cp assms(3) unfolding capacity_ok_def by blast
  have 7: "runs s ! c = RTest \<or> runs s ! c = RInc \<or> runs s ! c = RUnlockAsync \<or>
          runs s ! c = RUnlockSync \<longrightarrow> m s = Some (Run c)"
  proof
    assume "runs s ! c = RTest \<or> runs s ! c = RInc \<or> runs s ! c = RUnlockAsync \<or>
        runs s ! c = RUnlockSync"
    then have "holding s (Run c)" using assms(3) by auto
    then show "m s = Some (Run c)" using mx unfolding amutex_ok_def by blast
  qed
  have 8: "runs s ! c = RLock \<and> m s = None \<longrightarrow>
            astep (Step (Run c)) s = Inr (s\<lparr>m := Some (Run c), runs := (runs s)[c := RTest]\<rparr>)"
    using assms(3) by simp
  have 9: "\<forall>a. m s = Some a \<longrightarrow> (\<exists>s'. astep (Step a) s = Inr s')"
    using holder_steps[OF I(1) cap] by blast
  have 10: "runs s ! c \<noteq> RDone \<longrightarrow> (\<exists>g s'. g \<noteq> Destructor \<and> astep (Step g) s = Inr s')"
    using run_progress[OF I(1) cap assms(3)] by blast
  have 11: "\<exists>gs s'. aexec (map Step gs) s = Inr s' \<and> runs s' ! c = RDone \<and>
            length gs \<le> avariant s"
    by (rule run_completes[OF I(1) cap assms(3)])
  have 12: "runs s ! c \<noteq> RDone \<longrightarrow>
            (\<forall>gs s'. aexec (map Step gs) s = Inr s' \<longrightarrow> length gs + avariant s' \<le> avariant s)"
  proof (intro impI allI)
    fix gs s' assume nd: "runs s ! c \<noteq> RDone" and ex: "aexec (map Step gs) s = Inr s'"
    have "dtor s = DAlive"
    proof (rule ccontr)
      assume "dtor s \<noteq> DAlive"
      then have "\<forall>p \<in> set (runs s). p = RDone" using dt unfolding dtor_ok_def by blast
      with assms(3) nd show False by (metis nth_mem)
    qed
    then show "length gs + avariant s' \<le> avariant s" using ex by (rule steps_bounded)
  qed
  have 13: "\<forall>k < length (detached s). \<exists>gs s'. aexec (map Step gs) s = Inr s' \<and>
            detached s' ! k = (fst (detached s ! k), TDone) \<and>
            (fst (detached s ! k), Detached k) \<in> set (executed s')"
    using thread_completes[OF I(1) cap] by blast
  have 14: "\<forall>g. astep (Step g) s \<noteq> Inl Undefined"
    using runner_step_defined[OF I(1) cap] by blast
  from 1 2 3 4 5 6 7 8 9 10 11 12 13 14 show ?thesis by (intro conjI)
qed

theorem Run_branches_on_capacity_test_witness:
  "(1::int) \<le> INT_MAX \<and>
   aexec [Call, Step (Run 0), Step (Run 0), Step (Run 0), Step (Run 0), Step (Run 0),
          Call, Step (Run 1)] (Asynchronously 1) =
     Inr \<lparr>threads_active = 1, max_threads = 1, m = Some (Run 1), runs = [RDone, RTest],
          detached = [(0, TTask)], dtor = DAlive, executed = []\<rparr> \<and>
   aexec [Step (Run 1), Step (Run 1), Step (Run 1)]
     \<lparr>threads_active = 1, max_threads = 1, m = Some (Run 1), runs = [RDone, RTest],
      detached = [(0, TTask)], dtor = DAlive, executed = []\<rparr> =
     Inr \<lparr>threads_active = 1, max_threads = 1, m = None, runs = [RDone, RDone],
          detached = [(0, TTask)], dtor = DAlive, executed = [(1, Run 1)]\<rparr> \<and>
   aexec [Call, Step (Run 0)] (Asynchronously 1) =
     Inr \<lparr>threads_active = 0, max_threads = 1, m = Some (Run 0), runs = [RTest],
          detached = [], dtor = DAlive, executed = []\<rparr> \<and>
   aexec [Step (Run 0), Step (Run 0), Step (Run 0), Step (Run 0)]
     \<lparr>threads_active = 0, max_threads = 1, m = Some (Run 0), runs = [RTest],
      detached = [], dtor = DAlive, executed = []\<rparr> =
     Inr \<lparr>threads_active = 1, max_threads = 1, m = None, runs = [RDone],
          detached = [(0, TTask)], dtor = DAlive, executed = []\<rparr> \<and>
   (2::int) \<le> INT_MAX \<and>
   aexec [Call, Call, Call, Step (Run 1), Step (Run 1), Step (Run 1), Step (Run 1),
          Step (Run 1), Step (Run 0)] (Asynchronously 2) =
     Inr \<lparr>threads_active = 1, max_threads = 2, m = Some (Run 0), runs = [RTest, RDone, RLock],
          detached = [(1, TTask)], dtor = DAlive, executed = []\<rparr> \<and>
   aexec [Step (Run 0), Step (Run 0), Step (Run 0), Step (Run 0)]
     \<lparr>threads_active = 1, max_threads = 2, m = Some (Run 0), runs = [RTest, RDone, RLock],
      detached = [(1, TTask)], dtor = DAlive, executed = []\<rparr> =
     Inr \<lparr>threads_active = 2, max_threads = 2, m = None, runs = [RDone, RDone, RLock],
          detached = [(1, TTask), (0, TTask)], dtor = DAlive, executed = []\<rparr> \<and>
   aexec [Call, Call, Call, Step (Run 1), Step (Run 1), Step (Run 1), Step (Run 1),
          Step (Run 1), Step (Run 0), Step (Run 0), Step (Run 0), Step (Run 0), Step (Run 0),
          Step (Run 2)] (Asynchronously 2) =
     Inr \<lparr>threads_active = 2, max_threads = 2, m = Some (Run 2), runs = [RDone, RDone, RTest],
          detached = [(1, TTask), (0, TTask)], dtor = DAlive, executed = []\<rparr> \<and>
   aexec [Step (Run 2), Step (Run 2), Step (Run 2)]
     \<lparr>threads_active = 2, max_threads = 2, m = Some (Run 2), runs = [RDone, RDone, RTest],
      detached = [(1, TTask), (0, TTask)], dtor = DAlive, executed = []\<rparr> =
     Inr \<lparr>threads_active = 2, max_threads = 2, m = None, runs = [RDone, RDone, RDone],
          detached = [(1, TTask), (0, TTask)], dtor = DAlive, executed = [(2, Run 2)]\<rparr> \<and>
   aexec [Call, Call] (Asynchronously 2) =
     Inr \<lparr>threads_active = 0, max_threads = 2, m = None, runs = [RLock, RLock],
          detached = [], dtor = DAlive, executed = []\<rparr> \<and>
   astep (Step (Run 1))
     \<lparr>threads_active = 0, max_threads = 2, m = None, runs = [RLock, RLock],
      detached = [], dtor = DAlive, executed = []\<rparr> =
     Inr \<lparr>threads_active = 0, max_threads = 2, m = Some (Run 1), runs = [RLock, RTest],
          detached = [], dtor = DAlive, executed = []\<rparr> \<and>
   (\<exists>gs s'. aexec (map Step gs)
      \<lparr>threads_active = 0, max_threads = 2, m = None, runs = [RLock, RLock],
       detached = [], dtor = DAlive, executed = []\<rparr> = Inr s' \<and> runs s' ! 1 = RDone \<and>
      length gs \<le> 18)"
proof -
  have a: "(1::int) \<le> INT_MAX" and a2: "(2::int) \<le> INT_MAX" by (simp_all add: INT_MAX_def)
  have b: "aexec [Call, Step (Run 0), Step (Run 0), Step (Run 0), Step (Run 0), Step (Run 0),
          Call, Step (Run 1)] (Asynchronously 1) =
     Inr \<lparr>threads_active = 1, max_threads = 1, m = Some (Run 1), runs = [RDone, RTest],
          detached = [(0, TTask)], dtor = DAlive, executed = []\<rparr>"
    by (simp add: Asynchronously_def INT_MAX_def)
  have c: "aexec [Step (Run 1), Step (Run 1), Step (Run 1)]
     \<lparr>threads_active = 1, max_threads = 1, m = Some (Run 1), runs = [RDone, RTest],
      detached = [(0, TTask)], dtor = DAlive, executed = []\<rparr> =
     Inr \<lparr>threads_active = 1, max_threads = 1, m = None, runs = [RDone, RDone],
          detached = [(0, TTask)], dtor = DAlive, executed = [(1, Run 1)]\<rparr>"
    using Run_branches_on_capacity_test[OF a b, of 1] by simp
  have d: "aexec [Call, Step (Run 0)] (Asynchronously 1) =
     Inr \<lparr>threads_active = 0, max_threads = 1, m = Some (Run 0), runs = [RTest],
          detached = [], dtor = DAlive, executed = []\<rparr>"
    by (simp add: Asynchronously_def)
  have e: "aexec [Step (Run 0), Step (Run 0), Step (Run 0), Step (Run 0)]
     \<lparr>threads_active = 0, max_threads = 1, m = Some (Run 0), runs = [RTest],
      detached = [], dtor = DAlive, executed = []\<rparr> =
     Inr \<lparr>threads_active = 1, max_threads = 1, m = None, runs = [RDone],
          detached = [(0, TTask)], dtor = DAlive, executed = []\<rparr>"
    using Run_branches_on_capacity_test[OF a d, of 0] by simp
  have f: "aexec [Call, Call, Call, Step (Run 1), Step (Run 1), Step (Run 1), Step (Run 1),
          Step (Run 1), Step (Run 0)] (Asynchronously 2) =
     Inr \<lparr>threads_active = 1, max_threads = 2, m = Some (Run 0), runs = [RTest, RDone, RLock],
          detached = [(1, TTask)], dtor = DAlive, executed = []\<rparr>"
    by (simp add: Asynchronously_def INT_MAX_def)
  have g: "aexec [Step (Run 0), Step (Run 0), Step (Run 0), Step (Run 0)]
     \<lparr>threads_active = 1, max_threads = 2, m = Some (Run 0), runs = [RTest, RDone, RLock],
      detached = [(1, TTask)], dtor = DAlive, executed = []\<rparr> =
     Inr \<lparr>threads_active = 2, max_threads = 2, m = None, runs = [RDone, RDone, RLock],
          detached = [(1, TTask), (0, TTask)], dtor = DAlive, executed = []\<rparr>"
    using Run_branches_on_capacity_test[OF a2 f, of 0] by simp
  have h: "aexec [Call, Call, Call, Step (Run 1), Step (Run 1), Step (Run 1), Step (Run 1),
          Step (Run 1), Step (Run 0), Step (Run 0), Step (Run 0), Step (Run 0), Step (Run 0),
          Step (Run 2)] (Asynchronously 2) =
     Inr \<lparr>threads_active = 2, max_threads = 2, m = Some (Run 2), runs = [RDone, RDone, RTest],
          detached = [(1, TTask), (0, TTask)], dtor = DAlive, executed = []\<rparr>"
    by (simp add: Asynchronously_def INT_MAX_def)
  have i: "aexec [Step (Run 2), Step (Run 2), Step (Run 2)]
     \<lparr>threads_active = 2, max_threads = 2, m = Some (Run 2), runs = [RDone, RDone, RTest],
      detached = [(1, TTask), (0, TTask)], dtor = DAlive, executed = []\<rparr> =
     Inr \<lparr>threads_active = 2, max_threads = 2, m = None, runs = [RDone, RDone, RDone],
          detached = [(1, TTask), (0, TTask)], dtor = DAlive, executed = [(2, Run 2)]\<rparr>"
    using Run_branches_on_capacity_test[OF a2 h, of 2] by simp
  have j: "aexec [Call, Call] (Asynchronously 2) =
     Inr \<lparr>threads_active = 0, max_threads = 2, m = None, runs = [RLock, RLock],
          detached = [], dtor = DAlive, executed = []\<rparr>"
    by (simp add: Asynchronously_def)
  have k: "astep (Step (Run 1))
     \<lparr>threads_active = 0, max_threads = 2, m = None, runs = [RLock, RLock],
      detached = [], dtor = DAlive, executed = []\<rparr> =
     Inr \<lparr>threads_active = 0, max_threads = 2, m = Some (Run 1), runs = [RLock, RTest],
          detached = [], dtor = DAlive, executed = []\<rparr>"
    using Run_branches_on_capacity_test[OF a2 j, of 1] by simp
  have l: "\<exists>gs s'. aexec (map Step gs)
      \<lparr>threads_active = 0, max_threads = 2, m = None, runs = [RLock, RLock],
       detached = [], dtor = DAlive, executed = []\<rparr> = Inr s' \<and> runs s' ! 1 = RDone \<and>
      length gs \<le> 18"
    using Run_branches_on_capacity_test[OF a2 j, of 1] by (simp add: avariant_def)
  from a b c d e a2 f g h i j k l show ?thesis by (intro conjI)
qed



text \<open>
  C6, as the spec states it, fails for a runner of negative capacity: the constructor
  accepts any \<^verbatim>\<open>int\<close>, and in the initial state of \<^verbatim>\<open>Asynchronously(-1)\<close> the counter 0
  is above the capacity.
\<close>

theorem negative_capacity_counterexample:
  "threads_active (Asynchronously (- 1)) = 0 \<and> max_threads (Asynchronously (- 1)) = - 1 \<and>
   \<not> threads_active (Asynchronously (- 1)) \<le> max_threads (Asynchronously (- 1))"
  by (simp add: Asynchronously_def)

text \<open>
  C6, amended. In every reachable state of a runner constructed with \<open>n\<close>, under every
  interleaving of calls, detached threads and destructor: \<open>0 \<le> threads_active \<le> max 0 n\<close>,
  so \<open>threads_active \<le> n\<close> when \<open>0 \<le> n\<close>; \<^verbatim>\<open>max_threads\<close> is still \<open>n\<close>; and an
  action that changes \<^verbatim>\<open>threads_active\<close> is a step of the thread that holds \<^verbatim>\<open>m\<close>.
\<close>

theorem active_count_bounds:
  assumes "aexec as (Asynchronously n) = Inr s"
  shows "0 \<le> threads_active s \<and> threads_active s \<le> max 0 n \<and>
         (0 \<le> n \<longrightarrow> threads_active s \<le> n) \<and> max_threads s = n \<and>
         (\<forall>a s'. astep a s = Inr s' \<and> threads_active s' \<noteq> threads_active s
            \<longrightarrow> (\<exists>g. a = Step g \<and> m s = Some g))"
proof -
  note I = reachable_inv[OF assms]
  have mx: "amutex_ok s" and cn: "count_ok s" and cp: "capacity_ok s"
    using I(1) unfolding runner_inv_def by blast+
  have 1: "0 \<le> threads_active s" using cn unfolding count_ok_def by simp
  have 2: "threads_active s \<le> max 0 n" using cp I(2) unfolding capacity_ok_def by simp
  have 3: "\<exists>g. a = Step g \<and> m s = Some g"
    if "astep a s = Inr s'" "threads_active s' \<noteq> threads_active s" for a s'
    using that
  proof (cases rule: astep_cases)
    case (RInc c)
    then have "holding s (Run c)" by simp
    then have "m s = Some (Run c)" using mx unfolding amutex_ok_def by blast
    with RInc show ?thesis by blast
  next
    case (TDec k c)
    then have "holding s (Detached k)" by simp
    then have "m s = Some (Detached k)" using mx unfolding amutex_ok_def by blast
    with TDec show ?thesis by blast
  qed simp_all
  from 1 2 3 I(2) show ?thesis by auto
qed

theorem active_count_bounds_witness:
  "aexec [Call, Step (Run 0), Step (Run 0), Step (Run 0), Step (Run 0), Step (Run 0), Call,
          Step (Detached 0), Step (Detached 0)] (Asynchronously 1) =
     Inr \<lparr>threads_active = 1, max_threads = 1, m = Some (Detached 0), runs = [RDone, RLock],
          detached = [(0, TDec)], dtor = DAlive, executed = [(0, Detached 0)]\<rparr> \<and>
   (0::int) \<le> 1 \<and> (1::int) \<le> max 0 1"
proof -
  have a: "aexec [Call, Step (Run 0), Step (Run 0), Step (Run 0), Step (Run 0), Step (Run 0), Call,
          Step (Detached 0), Step (Detached 0)] (Asynchronously 1) =
     Inr \<lparr>threads_active = 1, max_threads = 1, m = Some (Detached 0), runs = [RDone, RLock],
          detached = [(0, TDec)], dtor = DAlive, executed = [(0, Detached 0)]\<rparr>"
    by (simp add: Asynchronously_def INT_MAX_def)
  from active_count_bounds[OF a] a show ?thesis by simp
qed

text \<open>
  C10. For a runner constructed with \<open>n \<le> 0\<close>, in every reachable state:
  \<^verbatim>\<open>threads_active\<close> is 0, no thread has been launched, every call of \<^verbatim>\<open>Run\<close> is on the
  synchronous path, a call that has returned has run its task itself, every task that ran
  ran on the thread that called \<^verbatim>\<open>Run\<close>, and the destructor never goes round its loop: once
  called, its first three steps (lock, test, unlock) take it to its return.

  Every call does run its task: a call at \<^verbatim>\<open>m.lock()\<close> with the mutex free goes in four
  steps (lock, test, unlock, \<^verbatim>\<open>f()\<close>) to its return, leaving the mutex free and the task
  executed on its own thread; the thread that holds the mutex can always make its next
  step and no step of a thread is undefined; while a call has not returned some call can
  make a step; every call can be run to its
  return, in at most \<open>avariant\<close> steps, with its task executed by itself, the counter 0
  and no thread; and when every call has returned the destructor can be called and returns
  after its three steps.
\<close>

theorem nonpositive_capacity_runs_synchronously:
  assumes "n \<le> 0" and "aexec as (Asynchronously n) = Inr s"
  shows "threads_active s = 0 \<and> detached s = [] \<and>
         (\<forall>p \<in> set (runs s). p = RLock \<or> p = RTest \<or> p = RUnlockSync \<or> p = RSync \<or> p = RDone) \<and>
         (\<forall>c < length (runs s). runs s ! c = RDone \<longrightarrow> (c, Run c) \<in> set (executed s)) \<and>
         (\<forall>e \<in> set (executed s). snd e = Run (fst e)) \<and>
         dtor s \<noteq> DUnlockLoop \<and>
         (dtor s = DLock \<longrightarrow>
            (\<exists>s'. aexec [Step Destructor, Step Destructor, Step Destructor] s = Inr s' \<and>
                  dtor s' = DReturned)) \<and>
         (\<forall>c < length (runs s). runs s ! c = RLock \<and> m s = None \<longrightarrow>
            aexec [Step (Run c), Step (Run c), Step (Run c), Step (Run c)] s =
              Inr (s\<lparr>m := None, runs := (runs s)[c := RDone],
                     executed := executed s @ [(c, Run c)]\<rparr>)) \<and>
         (\<forall>a. m s = Some a \<longrightarrow> (\<exists>s'. astep (Step a) s = Inr s')) \<and>
         (\<forall>c < length (runs s). runs s ! c \<noteq> RDone \<longrightarrow>
            (\<exists>g s'. g \<noteq> Destructor \<and> astep (Step g) s = Inr s')) \<and>
         (\<forall>c < length (runs s). \<exists>gs s'. aexec (map Step gs) s = Inr s' \<and>
            runs s' ! c = RDone \<and> (c, Run c) \<in> set (executed s') \<and>
            threads_active s' = 0 \<and> detached s' = [] \<and> length gs \<le> avariant s) \<and>
         (dtor s = DAlive \<and> (\<forall>p \<in> set (runs s). p = RDone) \<longrightarrow>
            (\<exists>s'. aexec [Destroy, Step Destructor, Step Destructor, Step Destructor] s = Inr s' \<and>
                  dtor s' = DReturned)) \<and>
         (\<forall>g. astep (Step g) s \<noteq> Inl Undefined)"
proof -
  note I = reachable_inv[OF assms(2)]
  have mx: "amutex_ok s" and dt: "dtor_ok s" and ts: "tasks_ok s"
    using I(1) unfolding runner_inv_def by blast+
  have cap0: "max_threads s \<le> 0" using I(2) assms(1) by simp
  then have cap: "max_threads s \<le> INT_MAX" by (simp add: INT_MAX_def)
  have init: "sync_only (Asynchronously n)" by (simp add: sync_only_def Asynchronously_def)
  have init_cap: "max_threads (Asynchronously n) \<le> 0"
    using assms(1) by (simp add: Asynchronously_def)
  have so: "sync_only s" using init init_cap assms(2) by (rule sync_only_exec)
  then have S1: "threads_active s = 0" and S2: "detached s = []"
    and S3: "\<forall>p \<in> set (runs s). p = RLock \<or> p = RTest \<or> p = RUnlockSync \<or> p = RSync \<or> p = RDone"
    and S4: "\<forall>e \<in> set (executed s). snd e = Run (fst e)"
    unfolding sync_only_def by blast+
  have 4: "\<forall>c < length (runs s). runs s ! c = RDone \<longrightarrow> (c, Run c) \<in> set (executed s)"
    using ts S2 unfolding tasks_ok_def by auto
  have 5: "dtor s \<noteq> DUnlockLoop" using dt S1 unfolding dtor_ok_def by auto
  have 6: "dtor s = DLock \<longrightarrow>
            (\<exists>s'. aexec [Step Destructor, Step Destructor, Step Destructor] s = Inr s' \<and>
                  dtor s' = DReturned)"
  proof
    assume d: "dtor s = DLock"
    have "\<forall>p \<in> set (runs s). p = RDone" using dt d unfolding dtor_ok_def by auto
    then have "m s = None"
      using mutex_free_after_return[OF mx] S2 d by simp
    with d S1 show "\<exists>s'. aexec [Step Destructor, Step Destructor, Step Destructor] s = Inr s' \<and>
                  dtor s' = DReturned" by simp
  qed
  have 7: "\<forall>c < length (runs s). runs s ! c = RLock \<and> m s = None \<longrightarrow>
            aexec [Step (Run c), Step (Run c), Step (Run c), Step (Run c)] s =
              Inr (s\<lparr>m := None, runs := (runs s)[c := RDone],
                     executed := executed s @ [(c, Run c)]\<rparr>)"
    using S1 cap0 by simp
  have 8: "\<forall>a. m s = Some a \<longrightarrow> (\<exists>s'. astep (Step a) s = Inr s')"
    using holder_steps[OF I(1) cap] by blast
  have 9: "\<forall>c < length (runs s). runs s ! c \<noteq> RDone \<longrightarrow>
            (\<exists>g s'. g \<noteq> Destructor \<and> astep (Step g) s = Inr s')"
    using run_progress[OF I(1) cap] by blast
  have 10: "\<forall>c < length (runs s). \<exists>gs s'. aexec (map Step gs) s = Inr s' \<and>
            runs s' ! c = RDone \<and> (c, Run c) \<in> set (executed s') \<and>
            threads_active s' = 0 \<and> detached s' = [] \<and> length gs \<le> avariant s"
  proof (intro allI impI)
    fix c assume c: "c < length (runs s)"
    from run_completes[OF I(1) cap c] obtain gs s' where
      ex: "aexec (map Step gs) s = Inr s'" and rd: "runs s' ! c = RDone"
      and len: "length gs \<le> avariant s" by blast
    have "aexec (as @ map Step gs) (Asynchronously n) = Inr s'"
      unfolding aexec_append using assms(2) ex by simp
    note I' = reachable_inv(1)[OF this]
    have "max_threads s' \<le> 0" using max_threads_exec[OF ex] cap0 by simp
    have "sync_only s'" using so cap0 ex by (rule sync_only_exec)
    then have Z: "threads_active s' = 0" "detached s' = []" unfolding sync_only_def by blast+
    have cl: "c < length (runs s')"
    proof -
      have "length (runs s2) = length (runs s1)" if "aexec (map Step hs) s1 = Inr s2"
        for hs s1 s2
        using that
      proof (induction hs arbitrary: s1)
        case Nil
        then show ?case by simp
      next
        case (Cons h hs)
        then show ?case by (auto split: sum.splits dest: runs_length_step(1))
      qed
      from this[OF ex] c show ?thesis by simp
    qed
    have "tasks_ok s'" using I' unfolding runner_inv_def by blast
    then have "(c, Run c) \<in> set (executed s')"
      using cl rd Z(2) unfolding tasks_ok_def by auto
    with ex rd Z len show "\<exists>gs s'. aexec (map Step gs) s = Inr s' \<and>
            runs s' ! c = RDone \<and> (c, Run c) \<in> set (executed s') \<and>
            threads_active s' = 0 \<and> detached s' = [] \<and> length gs \<le> avariant s" by blast
  qed
  have 11: "dtor s = DAlive \<and> (\<forall>p \<in> set (runs s). p = RDone) \<longrightarrow>
            (\<exists>s'. aexec [Destroy, Step Destructor, Step Destructor, Step Destructor] s = Inr s' \<and>
                  dtor s' = DReturned)"
  proof
    assume a: "dtor s = DAlive \<and> (\<forall>p \<in> set (runs s). p = RDone)"
    then have "m s = None" using mutex_free_after_return[OF mx] S2 by simp
    with a S1 show
      "\<exists>s'. aexec [Destroy, Step Destructor, Step Destructor, Step Destructor] s = Inr s' \<and>
                  dtor s' = DReturned" by simp
  qed
  have 12: "\<forall>g. astep (Step g) s \<noteq> Inl Undefined"
    using runner_step_defined[OF I(1) cap] by blast
  from S1 S2 S3 4 S4 5 6 7 8 9 10 11 12 show ?thesis by (intro conjI)
qed

theorem nonpositive_capacity_runs_synchronously_witness:
  "(0::int) \<le> 0 \<and>
   aexec [Call, Step (Run 0), Call, Step (Run 0), Step (Run 0), Step (Run 1), Step (Run 1),
          Step (Run 0), Step (Run 1), Step (Run 1), Destroy] (Asynchronously 0) =
     Inr \<lparr>threads_active = 0, max_threads = 0, m = None, runs = [RDone, RDone],
          detached = [], dtor = DLock, executed = [(0, Run 0), (1, Run 1)]\<rparr> \<and>
   (\<exists>s'. aexec [Step Destructor, Step Destructor, Step Destructor]
      \<lparr>threads_active = 0, max_threads = 0, m = None, runs = [RDone, RDone],
       detached = [], dtor = DLock, executed = [(0, Run 0), (1, Run 1)]\<rparr> = Inr s' \<and>
      dtor s' = DReturned) \<and>
   (- 1::int) \<le> 0 \<and>
   aexec [Call, Call] (Asynchronously (- 1)) =
     Inr \<lparr>threads_active = 0, max_threads = - 1, m = None, runs = [RLock, RLock],
          detached = [], dtor = DAlive, executed = []\<rparr> \<and>
   aexec [Step (Run 1), Step (Run 1), Step (Run 1), Step (Run 1)]
     \<lparr>threads_active = 0, max_threads = - 1, m = None, runs = [RLock, RLock],
      detached = [], dtor = DAlive, executed = []\<rparr> =
     Inr \<lparr>threads_active = 0, max_threads = - 1, m = None, runs = [RLock, RDone],
          detached = [], dtor = DAlive, executed = [(1, Run 1)]\<rparr> \<and>
   (\<exists>gs s'. aexec (map Step gs)
      \<lparr>threads_active = 0, max_threads = - 1, m = None, runs = [RLock, RLock],
       detached = [], dtor = DAlive, executed = []\<rparr> = Inr s' \<and>
      runs s' ! 0 = RDone \<and> (0, Run 0) \<in> set (executed s') \<and> length gs \<le> 18) \<and>
   aexec [Call, Step (Run 0), Step (Run 0), Step (Run 0), Step (Run 0)] (Asynchronously (- 1)) =
     Inr \<lparr>threads_active = 0, max_threads = - 1, m = None, runs = [RDone],
          detached = [], dtor = DAlive, executed = [(0, Run 0)]\<rparr> \<and>
   (\<exists>s'. aexec [Destroy, Step Destructor, Step Destructor, Step Destructor]
      \<lparr>threads_active = 0, max_threads = - 1, m = None, runs = [RDone],
       detached = [], dtor = DAlive, executed = [(0, Run 0)]\<rparr> = Inr s' \<and>
      dtor s' = DReturned)"
proof -
  have a: "(0::int) \<le> 0" and a1: "(- 1::int) \<le> 0" by simp_all
  have b: "aexec [Call, Step (Run 0), Call, Step (Run 0), Step (Run 0), Step (Run 1),
          Step (Run 1), Step (Run 0), Step (Run 1), Step (Run 1), Destroy] (Asynchronously 0) =
     Inr \<lparr>threads_active = 0, max_threads = 0, m = None, runs = [RDone, RDone],
          detached = [], dtor = DLock, executed = [(0, Run 0), (1, Run 1)]\<rparr>"
    by (simp add: Asynchronously_def)
  have c: "\<exists>s'. aexec [Step Destructor, Step Destructor, Step Destructor]
      \<lparr>threads_active = 0, max_threads = 0, m = None, runs = [RDone, RDone],
       detached = [], dtor = DLock, executed = [(0, Run 0), (1, Run 1)]\<rparr> = Inr s' \<and>
      dtor s' = DReturned"
    using nonpositive_capacity_runs_synchronously[OF a b] by simp
  have d: "aexec [Call, Call] (Asynchronously (- 1)) =
     Inr \<lparr>threads_active = 0, max_threads = - 1, m = None, runs = [RLock, RLock],
          detached = [], dtor = DAlive, executed = []\<rparr>"
    by (simp add: Asynchronously_def)
  note T = nonpositive_capacity_runs_synchronously[OF a1 d]
  have e: "aexec [Step (Run 1), Step (Run 1), Step (Run 1), Step (Run 1)]
     \<lparr>threads_active = 0, max_threads = - 1, m = None, runs = [RLock, RLock],
      detached = [], dtor = DAlive, executed = []\<rparr> =
     Inr \<lparr>threads_active = 0, max_threads = - 1, m = None, runs = [RLock, RDone],
          detached = [], dtor = DAlive, executed = [(1, Run 1)]\<rparr>"
    using T by simp
  have f: "\<exists>gs s'. aexec (map Step gs)
      \<lparr>threads_active = 0, max_threads = - 1, m = None, runs = [RLock, RLock],
       detached = [], dtor = DAlive, executed = []\<rparr> = Inr s' \<and>
      runs s' ! 0 = RDone \<and> (0, Run 0) \<in> set (executed s') \<and> length gs \<le> 18"
  proof -
    from T have "\<forall>c < 2. \<exists>gs s'. aexec (map Step gs)
      \<lparr>threads_active = 0, max_threads = - 1, m = None, runs = [RLock, RLock],
       detached = [], dtor = DAlive, executed = []\<rparr> = Inr s' \<and>
      runs s' ! c = RDone \<and> (c, Run c) \<in> set (executed s') \<and>
      threads_active s' = 0 \<and> detached s' = [] \<and> length gs \<le> 18"
      by (simp add: avariant_def)
    then show ?thesis by fastforce
  qed
  have g: "aexec [Call, Step (Run 0), Step (Run 0), Step (Run 0), Step (Run 0)]
      (Asynchronously (- 1)) =
     Inr \<lparr>threads_active = 0, max_threads = - 1, m = None, runs = [RDone],
          detached = [], dtor = DAlive, executed = [(0, Run 0)]\<rparr>"
    by (simp add: Asynchronously_def)
  have h: "\<exists>s'. aexec [Destroy, Step Destructor, Step Destructor, Step Destructor]
      \<lparr>threads_active = 0, max_threads = - 1, m = None, runs = [RDone],
       detached = [], dtor = DAlive, executed = [(0, Run 0)]\<rparr> = Inr s' \<and>
      dtor s' = DReturned"
    using nonpositive_capacity_runs_synchronously[OF a1 g] by simp
  from a b c a1 d e f g h show ?thesis by (intro conjI)
qed

end
